theory Spec2Isabelle
  imports Complex_Main "HOL-Library.AList"
begin

section \<open>JavaScript strings\<close>

text \<open>
  A JavaScript string is a sequence of UTF-16 code units; \<open>length\<close> counts code units and
  indexing reads one code unit.  Code units are modelled as natural numbers, so that every
  character class used by the source (\<open>trim\<close>, the regular expressions) is decidable.
  \<open>js\<close> turns an ASCII literal into such a string.
\<close>

type_synonym jsstring = "nat list"

definition js :: "string \<Rightarrow> jsstring" where
  "js s = map of_char s"

definition NL :: nat where "NL = 10"
definition SP :: nat where "SP = 32"

text \<open>The code units removed by \<open>String.prototype.trim\<close>: WhiteSpace and LineTerminator.\<close>

definition is_ws :: "nat \<Rightarrow> bool" where
  "is_ws c \<longleftrightarrow>
     c = 9 \<or> c = 10 \<or> c = 11 \<or> c = 12 \<or> c = 13 \<or> c = 32 \<or> c = 160 \<or> c = 5760 \<or>
     (8192 \<le> c \<and> c \<le> 8202) \<or> c = 8232 \<or> c = 8233 \<or> c = 8239 \<or> c = 8287 \<or>
     c = 12288 \<or> c = 65279"

definition trim :: "jsstring \<Rightarrow> jsstring" where
  "trim s = rev (dropWhile is_ws (rev (dropWhile is_ws s)))"

text \<open>
  \<open>text.split(/(\n)/)\<close>: the pieces between line feeds, with each line feed kept as a
  piece of its own (the capture group); the empty string gives one empty piece.
\<close>

fun split_nl_acc :: "jsstring \<Rightarrow> jsstring \<Rightarrow> jsstring list" where
  "split_nl_acc cur [] = [rev cur]"
| "split_nl_acc cur (c # cs) =
     (if c = NL then rev cur # [NL] # split_nl_acc [] cs else split_nl_acc (c # cur) cs)"

definition split_nl :: "jsstring \<Rightarrow> jsstring list" where
  "split_nl s = split_nl_acc [] s"

text \<open>
  \<open>s.split(/[ ]+/)\<close>: the pieces between maximal runs of spaces; a run at either end
  leaves an empty piece there, and the empty string gives one empty piece.
\<close>

fun split_sp_acc :: "jsstring \<Rightarrow> bool \<Rightarrow> jsstring \<Rightarrow> jsstring list" where
  "split_sp_acc cur in_sep [] = [rev cur]"
| "split_sp_acc cur in_sep (c # cs) =
     (if c = SP then
        (if in_sep then split_sp_acc cur True cs else rev cur # split_sp_acc [] True cs)
      else split_sp_acc (c # cur) False cs)"

definition split_sp :: "jsstring \<Rightarrow> jsstring list" where
  "split_sp s = split_sp_acc [] False s"

text \<open>\<open>xs.join(' ')\<close> on an array of strings.\<close>

fun join_sp :: "jsstring list \<Rightarrow> jsstring" where
  "join_sp [] = []"
| "join_sp [t] = t"
| "join_sp (t # u # ts) = t @ SP # join_sp (u # ts)"

section \<open>Tokenizer (Reader.tsx) and token counter (parser.ts)\<close>

text \<open>
  The tokenization effect of the Reader: every piece that is a line feed becomes a break
  token, every other piece is trimmed, split on runs of spaces, and its non-empty pieces
  are pushed in order.
\<close>

definition seg_words :: "jsstring \<Rightarrow> jsstring list" where
  "seg_words seg = filter (\<lambda>w. length w > 0) (split_sp (trim seg))"

definition push_seg :: "jsstring \<Rightarrow> jsstring list \<Rightarrow> jsstring list" where
  "push_seg seg tokens = (if seg = [NL] then tokens @ [[NL]] else tokens @ seg_words seg)"

definition tokenize :: "jsstring \<Rightarrow> jsstring list" where
  "tokenize content = fold push_seg (split_nl content) []"

text \<open>\<open>countTokens\<close> of the importer: the same walk, with a counter in place of the array.\<close>

definition count_seg :: "jsstring \<Rightarrow> nat \<Rightarrow> nat" where
  "count_seg seg count =
     (if seg = [NL] then count + 1
      else fold (\<lambda>w c. if length w > 0 then c + 1 else c) (split_sp (trim seg)) count)"

definition countTokens :: "jsstring \<Rightarrow> nat" where
  "countTokens text = fold count_seg (split_nl text) 0"

section \<open>Spritz renderer and wheel pivot (Reader.tsx)\<close>

text \<open>
  \<open>s.slice(start, end)\<close> and \<open>s.slice(start)\<close>: a negative position counts from the
  end, and every position is clamped to the string.
\<close>

definition js_pos :: "nat \<Rightarrow> int \<Rightarrow> nat" where
  "js_pos len i = (if i < 0 then nat (max (int len + i) 0) else min (nat i) len)"

definition js_slice :: "'a list \<Rightarrow> int \<Rightarrow> int \<Rightarrow> 'a list" where
  "js_slice s start end =
     (let from = js_pos (length s) start; to = js_pos (length s) end
      in take (to - from) (drop from s))"

definition js_slice_from :: "'a list \<Rightarrow> int \<Rightarrow> 'a list" where
  "js_slice_from s start = drop (js_pos (length s) start) s"

text \<open>\<open>xs[i]\<close> is \<open>undefined\<close> (here \<open>None\<close>) outside the array or string.\<close>

definition js_index :: "'a list \<Rightarrow> int \<Rightarrow> 'a option" where
  "js_index xs i = (if 0 \<le> i \<and> i < int (length xs) then Some (xs ! nat i) else None)"

text \<open>
  \<open>renderSpritz\<close>: the word at the floored visual index (the empty string when there is
  none), its pivot, and the three pieces that are laid out around the focal point.
\<close>

record spritz_parts =
  pivot :: int
  pre :: jsstring
  center :: jsstring
  post :: jsstring

definition spritz_word :: "jsstring list \<Rightarrow> int \<Rightarrow> jsstring" where
  "spritz_word words vi = (case js_index words vi of None \<Rightarrow> [] | Some w \<Rightarrow> w)"

definition spritz_split :: "jsstring \<Rightarrow> spritz_parts" where
  "spritz_split word =
     (let p = (int (length word) + 1) div 2 - 1
      in \<lparr> pivot = p,
           pre = js_slice word 0 p,
           center = (case js_index word p of None \<Rightarrow> [] | Some c \<Rightarrow> [c]),
           post = js_slice_from word (p + 1) \<rparr>)"

definition renderSpritz :: "jsstring list \<Rightarrow> int \<Rightarrow> spritz_parts" where
  "renderSpritz words vi = spritz_split (spritz_word words vi)"

text \<open>\<open>WheelDisplay.getPivot\<close>: 0 for a missing or empty word, the same formula otherwise.\<close>

definition getPivot :: "jsstring option \<Rightarrow> int" where
  "getPivot w = (case w of None \<Rightarrow> 0 | Some s \<Rightarrow>
                   if s = [] then 0 else (int (length s) + 1) div 2 - 1)"

section \<open>Sentence ranges and sentence seek (Reader.tsx)\<close>

text \<open>
  \<open>/[.!?]$/.test(w)\<close>: the last code unit of \<open>w\<close> is a full stop, an exclamation mark or
  a question mark.  A token closes a sentence when it is the break token or passes this test.
\<close>

definition ends_sentence :: "jsstring \<Rightarrow> bool" where
  "ends_sentence w \<longleftrightarrow> w \<noteq> [] \<and> (last w = 46 \<or> last w = 33 \<or> last w = 63)"

definition stops_scan :: "jsstring option \<Rightarrow> bool" where
  "stops_scan w = (case w of None \<Rightarrow> True | Some v \<Rightarrow> v = [NL] \<or> ends_sentence v)"

record range =
  range_start :: int
  range_end :: int

text \<open>The two \<open>while\<close> loops of \<open>getSentenceRange\<close>.\<close>

function scan_start :: "jsstring list \<Rightarrow> int \<Rightarrow> int" where
  "scan_start words start =
     (if start > 0 then
        (if stops_scan (js_index words (start - 1)) then start
         else scan_start words (start - 1))
      else start)"
  by pat_completeness auto
termination
  by (relation "measure (\<lambda>(words, start). nat start)") auto

function scan_end :: "jsstring list \<Rightarrow> int \<Rightarrow> int" where
  "scan_end words end =
     (if end < int (length words) - 1 then
        (if stops_scan (js_index words end) then end
         else scan_end words (end + 1))
      else end)"
  by pat_completeness auto
termination
  by (relation "measure (\<lambda>(words, end). nat (int (length words) - 1 - end))") auto

definition getSentenceRange :: "jsstring list \<Rightarrow> int \<Rightarrow> range" where
  "getSentenceRange words currentIndex =
     \<lparr> range_start = scan_start words currentIndex, range_end = scan_end words currentIndex \<rparr>"

datatype direction = Forward | Backward

text \<open>The index that \<open>navigateBySentence\<close> passes to \<open>setCurrentIndex\<close>.\<close>

definition navigateBySentence :: "jsstring list \<Rightarrow> int \<Rightarrow> direction \<Rightarrow> int" where
  "navigateBySentence words currentIndex dir =
     (let range = getSentenceRange words currentIndex in
      case dir of
        Forward \<Rightarrow> min (int (length words) - 1) (range_end range + 1)
      | Backward \<Rightarrow>
          if currentIndex > range_start range + 2 then range_start range
          else range_start (getSentenceRange words (max 0 (range_start range - 2))))"

declare scan_start.simps [simp del] scan_end.simps [simp del]

text \<open>
  Positions where the scans stop: a sentence starts at \<open>s\<close> when no token precedes it or
  the token before it closes a sentence (or is missing); a sentence ends at \<open>e\<close> when \<open>e\<close> is
  the last position or the token there closes a sentence (or is missing).
\<close>

definition sentence_start_at :: "jsstring list \<Rightarrow> int \<Rightarrow> bool" where
  "sentence_start_at words s \<longleftrightarrow> s \<le> 0 \<or> stops_scan (js_index words (s - 1))"

definition sentence_end_at :: "jsstring list \<Rightarrow> int \<Rightarrow> bool" where
  "sentence_end_at words e \<longleftrightarrow> int (length words) - 1 \<le> e \<or> stops_scan (js_index words e)"

section \<open>Rejoining tokens and whitespace normal form\<close>

text \<open>
  The round trip of the tokenizer is stated with definitions that follow the
  specification rather than the source.  \<open>rejoin\<close> joins the tokens in order with a
  single space between neighbours, a break token being the line feed itself.
  \<open>ws_normalize\<close> is the whitespace normal form of a text: line feeds are kept, and every
  segment between them is trimmed and has each run of spaces collapsed to one space.
\<close>

definition rejoin :: "jsstring list \<Rightarrow> jsstring" where
  "rejoin tokens = join_sp tokens"

text \<open>
  \<open>rejoin_lines\<close> is the same join read line by line: a single space between two word
  tokens, and each break token rendered as a line feed with no space beside it.
\<close>

fun rejoin_lines :: "jsstring list \<Rightarrow> jsstring" where
  "rejoin_lines [] = []"
| "rejoin_lines [t] = t"
| "rejoin_lines (t # u # ts) =
     (if t = [NL] \<or> u = [NL] then t @ rejoin_lines (u # ts)
      else t @ SP # rejoin_lines (u # ts))"

fun collapse_sp :: "bool \<Rightarrow> jsstring \<Rightarrow> jsstring" where
  "collapse_sp in_run [] = []"
| "collapse_sp in_run (c # cs) =
     (if c = SP then (if in_run then collapse_sp True cs else SP # collapse_sp True cs)
      else c # collapse_sp False cs)"

definition collapse_spaces :: "jsstring \<Rightarrow> jsstring" where
  "collapse_spaces s = collapse_sp False s"

definition ws_normalize :: "jsstring \<Rightarrow> jsstring" where
  "ws_normalize text =
     concat (map (\<lambda>seg. if seg = [NL] then [NL] else collapse_spaces (trim seg))
               (split_nl text))"

section \<open>Playback synchronizer (Reader.tsx)\<close>

text \<open>
  The settings the synchronizer reads, and \<open>activeWpm\<close> as the Reader derives it.
  \<open>Math.round\<close> rounds half up.  Numbers that need not be whole are rationals.
\<close>

datatype reading_mode = Spritz | Scroll | Paginated | Wheel | Tiktok

datatype repeat_mode = Off | Word | Phrase | Sentence

record config =
  mode :: reading_mode
  spritzEnabled :: bool
  wheelEnabled :: bool
  tiktokEnabled :: bool
  normalEnabled :: bool
  wheelContinuousMode :: bool
  spritzWpm :: rat
  normalWpm :: rat
  rate :: rat
  repeatMode :: repeat_mode

definition isVoiceEnabled :: "config \<Rightarrow> bool" where
  "isVoiceEnabled cfg =
     (case mode cfg of
        Spritz \<Rightarrow> spritzEnabled cfg
      | Wheel \<Rightarrow> wheelEnabled cfg
      | Tiktok \<Rightarrow> tiktokEnabled cfg
      | _ \<Rightarrow> normalEnabled cfg)"

definition js_round :: "rat \<Rightarrow> int" where
  "js_round x = \<lfloor>x + 1 / 2\<rfloor>"

definition activeWpm :: "config \<Rightarrow> rat" where
  "activeWpm cfg =
     (if mode cfg = Spritz \<or> mode cfg = Wheel \<or> mode cfg = Tiktok then spritzWpm cfg
      else if (mode cfg = Scroll \<or> mode cfg = Paginated) \<and> isVoiceEnabled cfg
        then of_int (max 1 (js_round (200 * rate cfg)))
      else normalWpm cfg)"

text \<open>
  A chunk of tokens handed to the speech engine, and the data an utterance's callbacks
  close over.
\<close>

record chunk =
  c_text :: jsstring
  c_start :: int
  c_end :: int

record utterance =
  u_chunk :: chunk
  isRepeating :: bool
  firstPart :: jsstring

text \<open>
  The session state the synchronizer owns: the current index, the play flag, the
  \<open>shouldPlayRef\<close> flag, the delay of the running interval timer if there is one, the start
  of the next chunk to enqueue, and the utterances in flight.
\<close>

record player =
  currentIndex :: int
  isPlaying :: bool
  shouldPlay :: bool
  timer :: "rat option"
  chunkQueueNextIndex :: int
  activeUtterances :: "utterance list"

text \<open>The exceptions the modelled code can raise.\<close>

datatype error = TypeError | SyntaxError | InvalidBackupFormat | DataError

text \<open>
  The tests on a token that may be missing: a regular expression applied to \<open>undefined\<close>
  sees the text "undefined", which none of these tests accepts.
\<close>

definition closes_sentence :: "jsstring option \<Rightarrow> bool" where
  "closes_sentence w = (case w of None \<Rightarrow> False | Some v \<Rightarrow> ends_sentence v \<or> v = [NL])"

definition is_quote :: "nat \<Rightarrow> bool" where
  "is_quote c \<longleftrightarrow> c = 39 \<or> c = 34"

definition is_sentence_punct :: "nat \<Rightarrow> bool" where
  "is_sentence_punct c \<longleftrightarrow> c = 46 \<or> c = 33 \<or> c = 63"

definition is_phrase_punct :: "nat \<Rightarrow> bool" where
  "is_phrase_punct c \<longleftrightarrow> c = 46 \<or> c = 33 \<or> c = 63 \<or> c = 10 \<or> c = 44 \<or> c = 59 \<or> c = 58"

text \<open>\<open>/[...]['"]?$/.test(w)\<close> for a character class: an optional quote may follow.\<close>

definition ends_with_opt_quote :: "(nat \<Rightarrow> bool) \<Rightarrow> jsstring \<Rightarrow> bool" where
  "ends_with_opt_quote cls w \<longleftrightarrow>
     w \<noteq> [] \<and> (cls (last w) \<or> (is_quote (last w) \<and> butlast w \<noteq> [] \<and> cls (last (butlast w))))"

definition closes_unit :: "(nat \<Rightarrow> bool) \<Rightarrow> jsstring option \<Rightarrow> bool" where
  "closes_unit cls w =
     (case w of None \<Rightarrow> False | Some v \<Rightarrow> ends_with_opt_quote cls v \<or> v = [NL])"

text \<open>\<open>getNextLargeChunk\<close>: up to 4000 tokens, cut back to a sentence end within 500.\<close>

function lookback_scan :: "jsstring list \<Rightarrow> int \<Rightarrow> int \<Rightarrow> int option" where
  "lookback_scan words limit lookback =
     (if lookback > limit then
        (if closes_sentence (js_index words lookback) then Some (lookback + 1)
         else lookback_scan words limit (lookback - 1))
      else None)"
  by pat_completeness auto
termination
  by (relation "measure (\<lambda>(words, limit, lookback). nat (lookback - limit))") auto

definition getNextLargeChunk :: "jsstring list \<Rightarrow> int \<Rightarrow> chunk" where
  "getNextLargeChunk words startIndex =
     (let end0 = min (int (length words)) (startIndex + 4000);
          end1 = (if end0 < int (length words) then
                    (case lookback_scan words (max startIndex (end0 - 500)) end0 of
                       Some e \<Rightarrow> e | None \<Rightarrow> end0)
                  else end0)
      in \<lparr> c_text = join_sp (js_slice words startIndex end1),
           c_start = startIndex, c_end = end1 \<rparr>)"

text \<open>The forward scans of the phrase and sentence repeat modes.\<close>

function unit_scan :: "(nat \<Rightarrow> bool) \<Rightarrow> jsstring list \<Rightarrow> int \<Rightarrow> int" where
  "unit_scan cls words endIdx =
     (if endIdx < int (length words) then
        (if closes_unit cls (js_index words endIdx) then endIdx
         else unit_scan cls words (endIdx + 1))
      else endIdx)"
  by pat_completeness auto
termination
  by (relation "measure (\<lambda>(cls, words, endIdx). nat (int (length words) - endIdx))") auto

declare lookback_scan.simps [simp del] unit_scan.simps [simp del]

definition unit_chunk :: "(nat \<Rightarrow> bool) \<Rightarrow> jsstring list \<Rightarrow> int \<Rightarrow> chunk" where
  "unit_chunk cls words currentStart =
     (let endIdx = unit_scan cls words currentStart;
          sliceEnd = min (int (length words)) (endIdx + 1)
      in \<lparr> c_text = join_sp (js_slice words currentStart sliceEnd),
           c_start = currentStart, c_end = sliceEnd \<rparr>)"

text \<open>
  The chunk \<open>enqueueNextChunk\<close> builds for a repeat mode.  In word mode the text is the
  token itself; where there is no token, reading \<open>chunk.text.trim()\<close> throws.
\<close>

definition next_chunk :: "repeat_mode \<Rightarrow> jsstring list \<Rightarrow> int \<Rightarrow> error + chunk" where
  "next_chunk rm words currentStart =
     (case rm of
        Word \<Rightarrow>
          (case js_index words currentStart of
             None \<Rightarrow> Inl TypeError
           | Some w \<Rightarrow> Inr \<lparr> c_text = w, c_start = currentStart, c_end = currentStart + 1 \<rparr>)
      | Phrase \<Rightarrow> Inr (unit_chunk is_phrase_punct words currentStart)
      | Sentence \<Rightarrow> Inr (unit_chunk is_sentence_punct words currentStart)
      | Off \<Rightarrow> Inr (getNextLargeChunk words currentStart))"

text \<open>\<open>textMain.replace(/[.!?\n,;:]+$/, '')\<close>.\<close>

definition strip_trailing_punct :: "jsstring \<Rightarrow> jsstring" where
  "strip_trailing_punct s = rev (dropWhile is_phrase_punct (rev s))"

definition make_utterance :: "repeat_mode \<Rightarrow> chunk \<Rightarrow> utterance" where
  "make_utterance rm ch =
     \<lparr> u_chunk = ch, isRepeating = (rm \<noteq> Off), firstPart = strip_trailing_punct (c_text ch) \<rparr>"

text \<open>
  \<open>enqueueNextChunk\<close>: nothing when playback is off, two utterances are in flight or the
  queue is past the last token; a chunk whose text is blank is skipped; any other chunk
  becomes an utterance, and the next one is prefetched.
\<close>

function enqueueNextChunk :: "config \<Rightarrow> jsstring list \<Rightarrow> player \<Rightarrow> error + player" where
  "enqueueNextChunk cfg words st =
     (if \<not> shouldPlay st then Inr st
      else if length (activeUtterances st) \<ge> 2 then Inr st
      else if chunkQueueNextIndex st \<ge> int (length words) then Inr st
      else
        (case next_chunk (repeatMode cfg) words (chunkQueueNextIndex st) of
           Inl e \<Rightarrow> Inl e
         | Inr ch \<Rightarrow>
             if trim (c_text ch) = [] then
               (if c_end ch < int (length words)
                then enqueueNextChunk cfg words (st\<lparr>chunkQueueNextIndex := c_end ch\<rparr>)
                else Inr (st\<lparr>chunkQueueNextIndex := c_end ch\<rparr>))
             else
               enqueueNextChunk cfg words
                 (st\<lparr>chunkQueueNextIndex := c_end ch,
                    activeUtterances :=
                      activeUtterances st @ [make_utterance (repeatMode cfg) ch]\<rparr>)))"
  by pat_completeness auto
termination
proof -
  have scan_ge: "s \<le> unit_scan cls ws s" for cls ws s
  proof (induction cls ws s rule: unit_scan.induct)
    case (1 cls ws s)
    show ?case
    proof (cases "s < int (length ws) \<and> \<not> closes_unit cls (js_index ws s)")
      case True
      with 1 have "s + 1 \<le> unit_scan cls ws (s + 1)" by simp
      with True show ?thesis by (simp add: unit_scan.simps [of cls ws s])
    next
      case False
      then show ?thesis by (auto simp add: unit_scan.simps [of cls ws s])
    qed
  qed
  have look: "limit < e" if "lookback_scan ws limit lb = Some e" for ws limit lb e
    using that
  proof (induction ws limit lb rule: lookback_scan.induct)
    case (1 ws limit lb)
    show ?case
    proof (cases "lb > limit \<and> \<not> closes_sentence (js_index ws lb)")
      case True
      with "1.prems" have "lookback_scan ws limit (lb - 1) = Some e"
        by (simp add: lookback_scan.simps [of ws limit lb])
      with True "1.IH" show ?thesis by simp
    next
      case False
      with "1.prems" show ?thesis
        by (auto simp add: lookback_scan.simps [of ws limit lb] split: if_splits)
    qed
  qed
  have later: "s < c_end ch"
    if "next_chunk rm ws s = Inr ch" and "s < int (length ws)" for rm ws s ch
  proof (cases rm)
    case Off
    let ?end0 = "min (int (length ws)) (s + 4000)"
    let ?lb = "lookback_scan ws (max s (?end0 - 500)) ?end0"
    have e0: "s < ?end0" using that(2) by simp
    have "ch = getNextLargeChunk ws s" using Off that(1) by (simp add: next_chunk_def)
    then have ce: "c_end ch = (if ?end0 < int (length ws)
                     then (case ?lb of Some e \<Rightarrow> e | None \<Rightarrow> ?end0) else ?end0)"
      by (simp add: getNextLargeChunk_def Let_def)
    show ?thesis
    proof (cases ?lb)
      case None
      with ce e0 show ?thesis by (simp split: if_splits)
    next
      case (Some e)
      then have "max s (?end0 - 500) < e" by (rule look)
      then have "s < e" by simp
      with ce e0 Some show ?thesis by (simp split: if_splits)
    qed
  next
    case Word
    with that(1) show ?thesis by (auto simp: next_chunk_def split: option.splits)
  next
    case Phrase
    with that(1) have "c_end ch = min (int (length ws)) (unit_scan is_phrase_punct ws s + 1)"
      by (auto simp: next_chunk_def unit_chunk_def Let_def)
    with that(2) scan_ge [of s is_phrase_punct ws] show ?thesis by simp
  next
    case Sentence
    with that(1) have "c_end ch = min (int (length ws)) (unit_scan is_sentence_punct ws s + 1)"
      by (auto simp: next_chunk_def unit_chunk_def Let_def)
    with that(2) scan_ge [of s is_sentence_punct ws] show ?thesis by simp
  qed
  show ?thesis
  proof (relation "measure (\<lambda>(cfg, ws, st). nat (int (length ws) - chunkQueueNextIndex st))")
    show "wf (measure (\<lambda>(cfg, ws, st). nat (int (length ws) - chunkQueueNextIndex st)))"
      by simp
  next
    fix cfg :: config and words :: "jsstring list" and st :: player and ch :: chunk
    assume "\<not> int (length words) \<le> chunkQueueNextIndex st"
      and "next_chunk (repeatMode cfg) words (chunkQueueNextIndex st) = Inr ch"
    then have "chunkQueueNextIndex st < c_end ch" "chunkQueueNextIndex st < int (length words)"
      using later by auto
    then show "((cfg, words, st\<lparr>chunkQueueNextIndex := c_end ch\<rparr>), cfg, words, st)
        \<in> measure (\<lambda>(cfg, ws, st). nat (int (length ws) - chunkQueueNextIndex st))"
      by simp
  next
    fix cfg :: config and words :: "jsstring list" and st :: player and ch :: chunk
    assume "\<not> int (length words) \<le> chunkQueueNextIndex st"
      and "next_chunk (repeatMode cfg) words (chunkQueueNextIndex st) = Inr ch"
    then have "chunkQueueNextIndex st < c_end ch" "chunkQueueNextIndex st < int (length words)"
      using later by auto
    then show "((cfg, words, st\<lparr>chunkQueueNextIndex := c_end ch,
           activeUtterances := activeUtterances st @ [make_utterance (repeatMode cfg) ch]\<rparr>),
          cfg, words, st)
        \<in> measure (\<lambda>(cfg, ws, st). nat (int (length ws) - chunkQueueNextIndex st))"
      by simp
  qed
qed

declare enqueueNextChunk.simps [simp del]

text \<open>
  \<open>speakText\<close>: stop what is running, then either start the interval timer (silent
  playback; none in the wheel's continuous mode) or fill the speech queue.
\<close>

definition speakText :: "config \<Rightarrow> jsstring list \<Rightarrow> int \<Rightarrow> player \<Rightarrow> error + player" where
  "speakText cfg words startIndex st =
     (let st1 = st\<lparr>shouldPlay := True, activeUtterances := [], timer := None,
                   chunkQueueNextIndex := startIndex\<rparr>
      in if \<not> isVoiceEnabled cfg then
           (if mode cfg = Wheel \<and> wheelContinuousMode cfg then Inr st1
            else Inr (st1\<lparr>timer := Some (60000 / activeWpm cfg)\<rparr>))
         else
           (case enqueueNextChunk cfg words st1 of
              Inl e \<Rightarrow> Inl e
            | Inr st2 \<Rightarrow> enqueueNextChunk cfg words st2))"

text \<open>The callback of the interval timer.\<close>

definition timer_tick :: "jsstring list \<Rightarrow> player \<Rightarrow> player" where
  "timer_tick words st =
     (if \<not> shouldPlay st then st\<lparr>timer := None\<rparr>
      else if currentIndex st \<ge> int (length words) - 1
        then st\<lparr>isPlaying := False, shouldPlay := False, timer := None\<rparr>
      else st\<lparr>currentIndex := currentIndex st + 1\<rparr>)"

text \<open>
  An ideal interval timer with a positive delay has fired \<open>floor(elapsed / delay)\<close> times
  after \<open>elapsed\<close> milliseconds.
\<close>

definition ticks_elapsed :: "rat \<Rightarrow> rat \<Rightarrow> nat" where
  "ticks_elapsed delay elapsed = nat \<lfloor>elapsed / delay\<rfloor>"

text \<open>The seeks.\<close>

definition changePosition :: "config \<Rightarrow> jsstring list \<Rightarrow> int \<Rightarrow> player \<Rightarrow> error + player" where
  "changePosition cfg words delta st =
     (let newIndex = max 0 (min (int (length words) - 1) (currentIndex st + delta));
          st1 = st\<lparr>currentIndex := newIndex\<rparr>
      in if isPlaying st then speakText cfg words newIndex st1 else Inr st1)"

text \<open>
  \<open>navigateBySentence\<close> as a transition; the restart it schedules ten milliseconds later
  is taken at once.
\<close>

definition navigateBySentence_step ::
  "config \<Rightarrow> jsstring list \<Rightarrow> direction \<Rightarrow> player \<Rightarrow> error + player" where
  "navigateBySentence_step cfg words dir st =
     (let newIndex = navigateBySentence words (currentIndex st) dir;
          st1 = st\<lparr>currentIndex := newIndex\<rparr>
      in if isPlaying st then
           speakText cfg words newIndex
             (st1\<lparr>shouldPlay := True, activeUtterances := [],
                  chunkQueueNextIndex := newIndex\<rparr>)
         else Inr st1)"

text \<open>A click with the main button on the rendered token \<open>index\<close>, nothing being selected.\<close>

definition handleWordClick :: "config \<Rightarrow> jsstring list \<Rightarrow> int \<Rightarrow> player \<Rightarrow> error + player" where
  "handleWordClick cfg words index st =
     speakText cfg words index (st\<lparr>currentIndex := index, isPlaying := True, shouldPlay := True\<rparr>)"

definition togglePlay :: "config \<Rightarrow> jsstring list \<Rightarrow> player \<Rightarrow> error + player" where
  "togglePlay cfg words st =
     (if isPlaying st then Inr (st\<lparr>shouldPlay := False, timer := None, isPlaying := False\<rparr>)
      else speakText cfg words (currentIndex st) (st\<lparr>shouldPlay := True, isPlaying := True\<rparr>))"

text \<open>
  The callbacks of an utterance.  A word boundary at character \<open>charIndex\<close> maps to the
  chunk's start plus the number of spaces before that character.
\<close>

definition onboundary :: "utterance \<Rightarrow> int \<Rightarrow> player \<Rightarrow> player" where
  "onboundary u charIndex st =
     (let splitPoint = int (length (firstPart u)) + 1;
          ci = (if isRepeating u \<and> charIndex \<ge> splitPoint then charIndex - splitPoint
                else charIndex)
      in if isRepeating u \<and> ci > int (length (firstPart u)) then st
         else
           (let referenceText = (if isRepeating u then firstPart u else c_text (u_chunk u));
                textBefore = js_slice referenceText 0 ci;
                relativeIndex = int (length (filter (\<lambda>c. c = SP) textBefore));
                newIndex = c_start (u_chunk u) + relativeIndex
            in if newIndex \<noteq> currentIndex st then st\<lparr>currentIndex := newIndex\<rparr> else st))"

definition delete_at :: "nat \<Rightarrow> 'a list \<Rightarrow> 'a list" where
  "delete_at k xs = take k xs @ drop (Suc k) xs"

definition onend :: "config \<Rightarrow> jsstring list \<Rightarrow> nat \<Rightarrow> player \<Rightarrow> error + player" where
  "onend cfg words k st =
     (if k < length (activeUtterances st) then
        (case enqueueNextChunk cfg words
                (st\<lparr>activeUtterances := delete_at k (activeUtterances st)\<rparr>) of
           Inl e \<Rightarrow> Inl e
         | Inr st1 \<Rightarrow>
             if activeUtterances st1 = [] \<and> chunkQueueNextIndex st1 \<ge> int (length words)
             then Inr (st1\<lparr>isPlaying := False, shouldPlay := False\<rparr>)
             else Inr st1)
      else Inr st)"

definition onerror :: "nat \<Rightarrow> player \<Rightarrow> player" where
  "onerror k st = st\<lparr>activeUtterances := delete_at k (activeUtterances st)\<rparr>"

text \<open>
  The events that change the session state.  The interval callback runs only while an
  interval is set; the engine's callbacks refer to an utterance in flight by its position.
\<close>

datatype event =
    ChangePosition int
  | NavigateBySentence direction
  | WordClick int
  | TimerTick
  | SpeechBoundary nat int
  | UtteranceEnd nat
  | UtteranceError nat
  | TogglePlay

definition step :: "config \<Rightarrow> jsstring list \<Rightarrow> event \<Rightarrow> player \<Rightarrow> error + player" where
  "step cfg words ev st =
     (case ev of
        ChangePosition delta \<Rightarrow> changePosition cfg words delta st
      | NavigateBySentence dir \<Rightarrow> navigateBySentence_step cfg words dir st
      | WordClick index \<Rightarrow> handleWordClick cfg words index st
      | TimerTick \<Rightarrow> (case timer st of None \<Rightarrow> Inr st | Some d \<Rightarrow> Inr (timer_tick words st))
      | SpeechBoundary k charIndex \<Rightarrow>
          (if k < length (activeUtterances st)
           then Inr (onboundary (activeUtterances st ! k) charIndex st) else Inr st)
      | UtteranceEnd k \<Rightarrow> onend cfg words k st
      | UtteranceError k \<Rightarrow> Inr (onerror k st)
      | TogglePlay \<Rightarrow> togglePlay cfg words st)"

fun run :: "config \<Rightarrow> jsstring list \<Rightarrow> event list \<Rightarrow> player \<Rightarrow> error + player" where
  "run cfg words [] st = Inr st"
| "run cfg words (ev # evs) st =
     (case step cfg words ev st of Inl e \<Rightarrow> Inl e | Inr st1 \<Rightarrow> run cfg words evs st1)"

text \<open>Tokens are offered for clicking only where they are rendered, at their own index.\<close>

definition event_ok :: "jsstring list \<Rightarrow> event \<Rightarrow> bool" where
  "event_ok words ev =
     (case ev of WordClick index \<Rightarrow> 0 \<le> index \<and> index < int (length words) | _ \<Rightarrow> True)"

text \<open>
  The session state when the Reader opens a book, and the invariant the events keep: the
  current index is an index of the token array, the chunk queue is not before the first
  token, and every utterance in flight maps its word boundaries into the token array.
\<close>

definition initial_player :: "int \<Rightarrow> player" where
  "initial_player lastPosition =
     \<lparr> currentIndex = lastPosition, isPlaying = False, shouldPlay = False, timer = None,
       chunkQueueNextIndex = 0, activeUtterances = [] \<rparr>"

definition count_sp :: "jsstring \<Rightarrow> int" where
  "count_sp s = int (length (filter (\<lambda>c. c = SP) s))"

definition utterance_ok :: "jsstring list \<Rightarrow> utterance \<Rightarrow> bool" where
  "utterance_ok words u \<longleftrightarrow>
     0 \<le> c_start (u_chunk u)
     \<and> c_start (u_chunk u) + count_sp (c_text (u_chunk u)) \<le> int (length words) - 1
     \<and> count_sp (firstPart u) \<le> count_sp (c_text (u_chunk u))"

definition player_ok :: "jsstring list \<Rightarrow> player \<Rightarrow> bool" where
  "player_ok words st \<longleftrightarrow>
     0 \<le> currentIndex st \<and> currentIndex st \<le> int (length words) - 1
     \<and> 0 \<le> chunkQueueNextIndex st
     \<and> list_all (utterance_ok words) (activeUtterances st)"

section \<open>Persistence gateway (storage.ts)\<close>

text \<open>
  Stored records and backup files are JSON-like values.  \<open>get_prop\<close> reads a property
  (\<open>None\<close> is \<open>undefined\<close>; the property names read here exist on objects only),
  \<open>set_prop\<close> assigns one, and \<open>truthy\<close> is JavaScript's conversion to a boolean.
\<close>

datatype json =
    JNull
  | JBool bool
  | JNum rat
  | JStr jsstring
  | JArr "json list"
  | JObj "(jsstring \<times> json) list"

definition get_prop :: "json \<Rightarrow> jsstring \<Rightarrow> json option" where
  "get_prop v name = (case v of JObj kvs \<Rightarrow> map_of kvs name | _ \<Rightarrow> None)"

definition set_prop :: "json \<Rightarrow> jsstring \<Rightarrow> json \<Rightarrow> json" where
  "set_prop v name x = (case v of JObj kvs \<Rightarrow> JObj (AList.update name x kvs) | _ \<Rightarrow> v)"

definition truthy :: "json option \<Rightarrow> bool" where
  "truthy v =
     (case v of
        None \<Rightarrow> False
      | Some JNull \<Rightarrow> False
      | Some (JBool b) \<Rightarrow> b
      | Some (JNum n) \<Rightarrow> n \<noteq> 0
      | Some (JStr s) \<Rightarrow> s \<noteq> []
      | Some (JArr xs) \<Rightarrow> True
      | Some (JObj kvs) \<Rightarrow> True)"

text \<open>
  An object store maps keys to values; it is kept as an association list with one entry
  per key.  A key is a number, a string or an array of keys.  A store with a key path takes
  the key of a value from that property of the value, and \<open>put\<close> raises \<open>DataError\<close> when
  the property is missing or is not a key; the settings store is given the key with the
  value.  No claim depends on the order in which \<open>getAll\<close> lists the values.
\<close>

type_synonym objstore = "(json \<times> json) list"

fun valid_key :: "json \<Rightarrow> bool" where
  "valid_key (JNum n) = True"
| "valid_key (JStr s) = True"
| "valid_key (JArr ks) = list_all valid_key ks"
| "valid_key v = False"

definition key_of :: "jsstring \<Rightarrow> json \<Rightarrow> json option" where
  "key_of keyPath v =
     (case get_prop v keyPath of
        None \<Rightarrow> None
      | Some k \<Rightarrow> if valid_key k then Some k else None)"

definition put_inline :: "jsstring \<Rightarrow> json \<Rightarrow> objstore \<Rightarrow> error + objstore" where
  "put_inline keyPath v store =
     (case key_of keyPath v of
        None \<Rightarrow> Inl DataError
      | Some k \<Rightarrow> Inr (AList.update k v store))"

definition put_at :: "json \<Rightarrow> json \<Rightarrow> objstore \<Rightarrow> objstore" where
  "put_at k v store = AList.update k v store"

definition get :: "objstore \<Rightarrow> json \<Rightarrow> json option" where
  "get store k = map_of store k"

definition getAll :: "objstore \<Rightarrow> json list" where
  "getAll store = map snd store"

text \<open>
  \<open>xs.forEach(v => store.put(v))\<close>: the puts in order, up to the first that raises; the
  puts made before it stay requested.
\<close>

fun put_each :: "jsstring \<Rightarrow> json list \<Rightarrow> objstore \<Rightarrow> error option \<times> objstore" where
  "put_each keyPath [] store = (None, store)"
| "put_each keyPath (v # vs) store =
     (case put_inline keyPath v store of
        Inl e \<Rightarrow> (Some e, store)
      | Inr store1 \<Rightarrow> put_each keyPath vs store1)"

record db =
  books :: objstore
  folders :: objstore
  settings :: objstore
  glossary :: objstore

definition empty_db :: db where
  "empty_db = \<lparr> books = [], folders = [], settings = [], glossary = [] \<rparr>"

text \<open>
  \<open>moveItems\<close>.  Every \<open>get\<close> is requested before any callback runs, so each reads the
  store as it was; the callbacks then put the records they found, with the new parent.  A
  folder is skipped when it is the target itself.  An exception in a callback aborts the
  transaction.
\<close>

definition moveItems ::
  "jsstring list \<Rightarrow> jsstring list \<Rightarrow> jsstring option \<Rightarrow> db \<Rightarrow> error + db" where
  "moveItems bookIds folderIds targetParentId d =
     (let target = (case targetParentId of None \<Rightarrow> JNull | Some t \<Rightarrow> JStr t);
          bookReads = map (\<lambda>id. get (books d) (JStr id)) bookIds;
          folderReads = map (\<lambda>id. (id, get (folders d) (JStr id))) folderIds;
          bookPuts = concat (map (\<lambda>r. if truthy r then [set_prop (the r) (js ''parentId'') target]
                                        else []) bookReads);
          folderPuts = concat (map (\<lambda>(id, r).
                           if truthy r \<and> Some id \<noteq> targetParentId
                           then [set_prop (the r) (js ''parentId'') target] else []) folderReads)
      in case put_each (js ''id'') bookPuts (books d) of
           (Some e, bs) \<Rightarrow> Inl e
         | (None, bs) \<Rightarrow>
             (case put_each (js ''id'') folderPuts (folders d) of
                (Some e, fs) \<Rightarrow> Inl e
              | (None, fs) \<Rightarrow> Inr (d\<lparr>books := bs, folders := fs\<rparr>)))"

text \<open>
  The folder tree: the parent of a folder is the folder its \<open>parentId\<close> names, and a folder
  is its own ancestor when following parents from it comes back to it.  Following at most
  as many parents as there are folders finds every cycle.
\<close>

definition parent_of :: "db \<Rightarrow> json \<Rightarrow> json option" where
  "parent_of d k =
     (case get (folders d) k of
        None \<Rightarrow> None
      | Some f \<Rightarrow>
          (case get_prop f (js ''parentId'') of
             Some (JStr p) \<Rightarrow> Some (JStr p)
           | _ \<Rightarrow> None))"

fun ancestors :: "nat \<Rightarrow> db \<Rightarrow> json \<Rightarrow> json list" where
  "ancestors 0 d k = []"
| "ancestors (Suc n) d k =
     (case parent_of d k of None \<Rightarrow> [] | Some p \<Rightarrow> p # ancestors n d p)"

definition own_ancestor :: "db \<Rightarrow> json \<Rightarrow> bool" where
  "own_ancestor d k \<longleftrightarrow> k \<in> set (ancestors (length (folders d)) d k)"

definition folder_tree_ok :: "db \<Rightarrow> bool" where
  "folder_tree_ok d \<longleftrightarrow> list_all (\<lambda>k. \<not> own_ancestor d k) (map fst (folders d))"

text \<open>
  Property keys.  \<open>obj[k] = v\<close> converts \<open>k\<close> to a string first: a string is its own
  key, \<open>undefined\<close> gives "undefined", an array gives its elements joined by commas (an
  element that is \<open>null\<close> gives nothing), an object without a \<open>toString\<close> of its own gives
  "[object Object]", and a number is written by the platform's number formatting, which is
  a parameter.  The word of an entry held by the glossary store is a key, so that only
  strings, numbers and arrays of these are converted there.
\<close>

fun join_comma :: "jsstring list \<Rightarrow> jsstring" where
  "join_comma [] = []"
| "join_comma [t] = t"
| "join_comma (t # u # ts) = t @ 44 # join_comma (u # ts)"

fun ToString :: "(rat \<Rightarrow> jsstring) \<Rightarrow> json \<Rightarrow> jsstring" where
  "ToString Number_toString JNull = js ''null''"
| "ToString Number_toString (JBool b) = (if b then js ''true'' else js ''false'')"
| "ToString Number_toString (JNum n) = Number_toString n"
| "ToString Number_toString (JStr s) = s"
| "ToString Number_toString (JArr xs) =
     join_comma (map (\<lambda>x. if x = JNull then [] else ToString Number_toString x) xs)"
| "ToString Number_toString (JObj kvs) = js ''[object Object]''"

definition ToPropertyKey :: "(rat \<Rightarrow> jsstring) \<Rightarrow> json option \<Rightarrow> jsstring" where
  "ToPropertyKey Number_toString v =
     (case v of None \<Rightarrow> js ''undefined'' | Some x \<Rightarrow> ToString Number_toString x)"

text \<open>
  An object created by \<open>{}\<close>: its own properties in creation order, and its prototype
  (\<open>None\<close> is \<open>Object.prototype\<close>, where it starts).  \<open>obj[key] = v\<close> creates an own property
  or overwrites the one of that name, with one exception: the key \<open>__proto__\<close> names an
  accessor of \<open>Object.prototype\<close>, and an assignment that reaches it runs the setter, which
  makes \<open>v\<close> the prototype when \<open>v\<close> is an object or \<open>null\<close> and does nothing otherwise; no
  own property is created.  The assignment reaches the accessor unless the object has an own
  property \<open>__proto__\<close>, or its prototype is \<open>null\<close>, or its prototype is a stored record
  with an own property of that name.  \<open>Object.values\<close> lists the values of the own
  properties; no claim depends on the order of that list.
\<close>

record plain_object =
  own_props :: "(jsstring \<times> json) list"
  proto :: "json option"

definition empty_object :: plain_object where
  "empty_object = \<lparr> own_props = [], proto = None \<rparr>"

definition reaches_proto_setter :: "plain_object \<Rightarrow> bool" where
  "reaches_proto_setter obj \<longleftrightarrow>
     js ''__proto__'' \<notin> fst ` set (own_props obj)
     \<and> (case proto obj of
          None \<Rightarrow> True
        | Some JNull \<Rightarrow> False
        | Some (JObj kvs) \<Rightarrow> js ''__proto__'' \<notin> fst ` set kvs
        | Some v \<Rightarrow> True)"

definition obj_assign :: "plain_object \<Rightarrow> jsstring \<Rightarrow> json \<Rightarrow> plain_object" where
  "obj_assign obj key v =
     (if key = js ''__proto__'' \<and> reaches_proto_setter obj then
        (case v of
           JObj kvs \<Rightarrow> obj\<lparr>proto := Some v\<rparr>
         | JArr xs \<Rightarrow> obj\<lparr>proto := Some v\<rparr>
         | JNull \<Rightarrow> obj\<lparr>proto := Some v\<rparr>
         | _ \<Rightarrow> obj)
      else obj\<lparr>own_props := AList.update key v (own_props obj)\<rparr>)"

definition Object_values :: "plain_object \<Rightarrow> json list" where
  "Object_values obj = map snd (own_props obj)"

text \<open>
  \<open>exportBackup\<close>.  \<open>getGlossary\<close> assigns every stored entry into a plain object under
  the entry's word, and the snapshot takes \<open>Object.values\<close> of that object as its glossary.
  The snapshot leaves out a settings slot that is \<open>undefined\<close>.  \<open>JSON.stringify\<close> and
  the clock are the platform's and are parameters.
\<close>

definition getGlossary :: "(rat \<Rightarrow> jsstring) \<Rightarrow> objstore \<Rightarrow> plain_object" where
  "getGlossary Number_toString store =
     fold (\<lambda>item glossaryMap.
             obj_assign glossaryMap (ToPropertyKey Number_toString (get_prop item (js ''word''))) item)
       (getAll store) empty_object"

definition backup_settings :: "objstore \<Rightarrow> json" where
  "backup_settings store =
     JObj ((case get store (JStr (js ''app'')) of None \<Rightarrow> [] | Some a \<Rightarrow> [(js ''app'', a)])
         @ (case get store (JStr (js ''voice'')) of None \<Rightarrow> [] | Some v \<Rightarrow> [(js ''voice'', v)]))"

definition backup_value :: "(rat \<Rightarrow> jsstring) \<Rightarrow> rat \<Rightarrow> db \<Rightarrow> json" where
  "backup_value Number_toString now d =
     JObj [(js ''version'', JNum 1),
           (js ''timestamp'', JNum now),
           (js ''books'', JArr (getAll (books d))),
           (js ''folders'', JArr (getAll (folders d))),
           (js ''glossary'', JArr (Object_values (getGlossary Number_toString (glossary d)))),
           (js ''settings'', backup_settings (settings d))]"

definition exportBackup ::
  "(rat \<Rightarrow> jsstring) \<Rightarrow> (json \<Rightarrow> jsstring) \<Rightarrow> rat \<Rightarrow> db \<Rightarrow> jsstring" where
  "exportBackup Number_toString JSON_stringify now d =
     JSON_stringify (backup_value Number_toString now d)"

text \<open>
  \<open>importBackup\<close>.  \<open>JSON.parse\<close> is a parameter (\<open>None\<close> when it raises \<open>SyntaxError\<close>).
  The result is what the caller sees together with the database afterwards.  The writes
  are made inside one transaction; when a put raises, the promise is rejected but nothing
  aborts the transaction, which commits the puts requested before.
\<close>

definition import_collection ::
  "jsstring \<Rightarrow> jsstring \<Rightarrow> json \<Rightarrow> objstore \<Rightarrow> error option \<times> objstore" where
  "import_collection name keyPath data store =
     (case get_prop data name of
        Some (JArr xs) \<Rightarrow> put_each keyPath xs store
      | _ \<Rightarrow> (None, store))"

definition import_settings :: "json \<Rightarrow> objstore \<Rightarrow> objstore" where
  "import_settings data store =
     (case get_prop data (js ''settings'') of
        None \<Rightarrow> store
      | Some s \<Rightarrow>
          if truthy (Some s) then
            (let store1 = (if truthy (get_prop s (js ''app''))
                           then put_at (JStr (js ''app'')) (the (get_prop s (js ''app''))) store
                           else store)
             in if truthy (get_prop s (js ''voice''))
                then put_at (JStr (js ''voice'')) (the (get_prop s (js ''voice''))) store1
                else store1)
          else store)"

definition import_tx :: "json \<Rightarrow> db \<Rightarrow> (error + unit) \<times> db" where
  "import_tx data d =
     (case import_collection (js ''books'') (js ''id'') data (books d) of
        (Some e, bs) \<Rightarrow> (Inl e, d\<lparr>books := bs\<rparr>)
      | (None, bs) \<Rightarrow>
          (case import_collection (js ''folders'') (js ''id'') data (folders d) of
             (Some e, fs) \<Rightarrow> (Inl e, d\<lparr>books := bs, folders := fs\<rparr>)
           | (None, fs) \<Rightarrow>
               (case import_collection (js ''glossary'') (js ''word'') data (glossary d) of
                  (Some e, gs) \<Rightarrow> (Inl e, d\<lparr>books := bs, folders := fs, glossary := gs\<rparr>)
                | (None, gs) \<Rightarrow>
                    (Inr (), d\<lparr>books := bs, folders := fs, glossary := gs,
                               settings := import_settings data (settings d)\<rparr>))))"

definition importBackup ::
  "(jsstring \<Rightarrow> json option) \<Rightarrow> jsstring \<Rightarrow> db \<Rightarrow> (error + unit) \<times> db" where
  "importBackup JSON_parse jsonString d =
     (case JSON_parse jsonString of
        None \<Rightarrow> (Inl SyntaxError, d)
      | Some data \<Rightarrow>
          if \<not> truthy (Some data) \<or> \<not> truthy (get_prop data (js ''version''))
          then (Inl InvalidBackupFormat, d)
          else import_tx data d)"

text \<open>
  What an import walks and what a store holds: the records of a snapshot collection (none
  unless the property is an array), the same records with their keys, the condition that
  each record has a key at the key path, the value a snapshot gives for a settings slot,
  the condition that a store with a key path holds each value under the value's own key,
  once, and the condition that the keys of a store are strings other than \<open>__proto__\<close>.
\<close>

definition snapshot_items :: "json \<Rightarrow> jsstring \<Rightarrow> json list" where
  "snapshot_items data name = (case get_prop data name of Some (JArr xs) \<Rightarrow> xs | _ \<Rightarrow> [])"

definition keyed :: "jsstring \<Rightarrow> json list \<Rightarrow> (json \<times> json) list" where
  "keyed keyPath xs = map (\<lambda>v. (the (key_of keyPath v), v)) xs"

definition all_keyed :: "jsstring \<Rightarrow> json list \<Rightarrow> bool" where
  "all_keyed keyPath xs = list_all (\<lambda>v. key_of keyPath v \<noteq> None) xs"

definition snapshot_slot :: "json \<Rightarrow> jsstring \<Rightarrow> json option" where
  "snapshot_slot data name =
     (case get_prop data (js ''settings'') of None \<Rightarrow> None | Some s \<Rightarrow> get_prop s name)"

definition store_ok :: "jsstring \<Rightarrow> objstore \<Rightarrow> bool" where
  "store_ok keyPath store \<longleftrightarrow>
     distinct (map fst store) \<and> list_all (\<lambda>(k, v). key_of keyPath v = Some k) store"

definition plain_words :: "objstore \<Rightarrow> bool" where
  "plain_words store \<longleftrightarrow>
     list_all (\<lambda>(k, v). case k of JStr w \<Rightarrow> w \<noteq> js ''__proto__'' | _ \<Rightarrow> False) store"

section \<open>Token counter against tokenizer\<close>

lemma fold_count_words:
  "fold (\<lambda>w c. if w \<noteq> [] then c + 1 else c) ws (c0::nat)
     = c0 + length (filter (\<lambda>w. w \<noteq> []) ws)"
  by (induction ws arbitrary: c0) auto

lemma count_seg_push_seg:
  "count_seg seg (length tokens) = length (push_seg seg tokens)"
  by (simp add: count_seg_def push_seg_def seg_words_def fold_count_words)

lemma fold_count_push:
  "fold count_seg segs (length tokens) = length (fold push_seg segs tokens)"
  by (induction segs arbitrary: tokens) (simp_all add: count_seg_push_seg)

text \<open>
  C10. For every text, the importer's \<open>countTokens\<close> equals the number of tokens the
  Reader builds from the same text.
\<close>

theorem countTokens_eq_length_tokenize:
  "countTokens text = length (tokenize text)"
  using fold_count_push [of "split_nl text" "[]"]
  by (simp add: countTokens_def tokenize_def)

section \<open>Spritz pivot\<close>

lemma spritz_split_Cons:
  fixes c :: nat and cs :: "nat list"
  defines "p \<equiv> (length (c # cs) + 1) div 2 - 1"
  shows "p < length (c # cs)"
    and "spritz_split (c # cs) =
      \<lparr> pivot = int p, pre = take p (c # cs), center = [(c # cs) ! p],
        post = drop (Suc p) (c # cs) \<rparr>"
proof -
  show less: "p < length (c # cs)"
    unfolding p_def by simp
  have ip: "(int (length (c # cs)) + 1) div 2 - 1 = int p"
    unfolding p_def by (simp add: zdiv_int of_nat_diff)
  show "spritz_split (c # cs) =
      \<lparr> pivot = int p, pre = take p (c # cs), center = [(c # cs) ! p],
        post = drop (Suc p) (c # cs) \<rparr>"
    using less unfolding spritz_split_def Let_def ip
    by (simp add: js_slice_def js_slice_from_def js_pos_def js_index_def min_def
        nat_add_distrib)
qed

lemma spritz_split_Nil:
  "spritz_split [] = \<lparr> pivot = - 1, pre = [], center = [], post = [] \<rparr>"
  by (simp add: spritz_split_def js_slice_def js_slice_from_def js_pos_def js_index_def)

text \<open>
  C9. The spritz renderer takes as pivot the index \<open>floor((L+1)/2) - 1\<close> of the displayed
  word of length \<open>L\<close>.  For every non-empty word the pivot is a position of the word, the
  focal piece is the code unit there, the left piece is everything before it and the right
  piece everything after it, and the wheel's \<open>getPivot\<close> gives the same index; the empty
  string (shown when there is no token) has pivot \<open>-1\<close> and three empty pieces.  For
  "cat" the pivot is 1 and the focal character is the "a"; for "a" the pivot is 0.
\<close>

theorem spritz_pivot_formula:
  "pivot (spritz_split w) = (int (length w) + 1) div 2 - 1
   \<and> pre (spritz_split w) @ center (spritz_split w) @ post (spritz_split w) = w
   \<and> (let v = c # cs; p = (length v + 1) div 2 - 1 in
        p < length v
        \<and> spritz_split v =
            \<lparr> pivot = int p, pre = take p v, center = [v ! p], post = drop (Suc p) v \<rparr>
        \<and> getPivot (Some v) = pivot (spritz_split v))
   \<and> spritz_split [] = \<lparr> pivot = - 1, pre = [], center = [], post = [] \<rparr>
   \<and> spritz_split (js ''cat'')
        = \<lparr> pivot = 1, pre = js ''c'', center = js ''a'', post = js ''t'' \<rparr>
   \<and> spritz_split (js ''a'') = \<lparr> pivot = 0, pre = [], center = js ''a'', post = [] \<rparr>"
proof -
  have piv: "pivot (spritz_split w) = (int (length w) + 1) div 2 - 1"
    by (simp add: spritz_split_def Let_def)
  have cat: "pre (spritz_split w) @ center (spritz_split w) @ post (spritz_split w) = w"
  proof (cases w)
    case Nil
    then show ?thesis by (simp add: spritz_split_Nil)
  next
    case (Cons d ds)
    have "take p (d # ds) @ [(d # ds) ! p] @ drop (Suc p) (d # ds) = d # ds"
      if "p < length (d # ds)" for p
      using that by (metis append_Cons append_Nil id_take_nth_drop)
    with spritz_split_Cons [of d ds] Cons show ?thesis by simp
  qed
  have gp: "getPivot (Some (c # cs)) = pivot (spritz_split (c # cs))"
    by (simp add: getPivot_def spritz_split_def Let_def)
  have ex1: "spritz_split (js ''cat'')
        = \<lparr> pivot = 1, pre = js ''c'', center = js ''a'', post = js ''t'' \<rparr>"
    by (simp add: spritz_split_def js_def js_slice_def js_slice_from_def js_pos_def
        js_index_def)
  have ex2: "spritz_split (js ''a'') = \<lparr> pivot = 0, pre = [], center = js ''a'', post = [] \<rparr>"
    by (simp add: spritz_split_def js_def js_slice_def js_slice_from_def js_pos_def
        js_index_def)
  show ?thesis
    using piv cat gp ex1 ex2 spritz_split_Cons [of c cs] spritz_split_Nil
    by (simp add: Let_def)
qed

section \<open>Sentence ranges\<close>

lemma scan_start_spec:
  "scan_start words i \<le> i \<and> sentence_start_at words (scan_start words i)
   \<and> (\<forall>j. scan_start words i < j \<and> j \<le> i \<longrightarrow> \<not> sentence_start_at words j)"
proof (induction words i rule: scan_start.induct)
  case (1 words start)
  show ?case
  proof (cases "start > 0 \<and> \<not> stops_scan (js_index words (start - 1))")
    case True
    then have eq: "scan_start words start = scan_start words (start - 1)"
      by (simp add: scan_start.simps [of words start])
    have ns: "\<not> sentence_start_at words start" using True by (simp add: sentence_start_at_def)
    from True 1 have IH: "scan_start words (start - 1) \<le> start - 1 \<and>
        sentence_start_at words (scan_start words (start - 1)) \<and>
        (\<forall>j. scan_start words (start - 1) < j \<and> j \<le> start - 1 \<longrightarrow> \<not> sentence_start_at words j)"
      by simp
    show ?thesis unfolding eq
    proof (intro conjI allI impI)
      show "scan_start words (start - 1) \<le> start" using IH by simp
      show "sentence_start_at words (scan_start words (start - 1))" using IH by simp
      fix j assume "scan_start words (start - 1) < j \<and> j \<le> start"
      then show "\<not> sentence_start_at words j" using IH ns by (cases "j = start") auto
    qed
  next
    case False
    then have eq: "scan_start words start = start"
      by (auto simp add: scan_start.simps [of words start])
    show ?thesis unfolding eq using False by (auto simp: sentence_start_at_def)
  qed
qed

lemma scan_start_unique:
  assumes "s \<le> k" "sentence_start_at words s" "\<forall>j. s < j \<and> j \<le> k \<longrightarrow> \<not> sentence_start_at words j"
  shows "scan_start words k = s"
proof -
  let ?t = "scan_start words k"
  from scan_start_spec [of words k]
  have t: "?t \<le> k" "sentence_start_at words ?t" "\<forall>j. ?t < j \<and> j \<le> k \<longrightarrow> \<not> sentence_start_at words j"
    by auto
  have "\<not> s < ?t" using t(1,2) assms(3) by auto
  moreover have "\<not> ?t < s" using assms(1,2) t(3) by auto
  ultimately show ?thesis by simp
qed

lemma scan_end_spec:
  "i \<le> scan_end words i \<and> sentence_end_at words (scan_end words i)
   \<and> (\<forall>j. i \<le> j \<and> j < scan_end words i \<longrightarrow> \<not> sentence_end_at words j)"
proof (induction words i rule: scan_end.induct)
  case (1 words e)
  show ?case
  proof (cases "e < int (length words) - 1 \<and> \<not> stops_scan (js_index words e)")
    case True
    then have eq: "scan_end words e = scan_end words (e + 1)"
      by (simp add: scan_end.simps [of words e])
    have ns: "\<not> sentence_end_at words e" using True by (simp add: sentence_end_at_def)
    from True 1 have IH: "e + 1 \<le> scan_end words (e + 1) \<and>
        sentence_end_at words (scan_end words (e + 1)) \<and>
        (\<forall>j. e + 1 \<le> j \<and> j < scan_end words (e + 1) \<longrightarrow> \<not> sentence_end_at words j)"
      by simp
    show ?thesis unfolding eq
    proof (intro conjI allI impI)
      show "e \<le> scan_end words (e + 1)" using IH by simp
      show "sentence_end_at words (scan_end words (e + 1))" using IH by simp
      fix j assume "e \<le> j \<and> j < scan_end words (e + 1)"
      then show "\<not> sentence_end_at words j" using IH ns by (cases "j = e") auto
    qed
  next
    case False
    then have eq: "scan_end words e = e"
      by (auto simp add: scan_end.simps [of words e])
    show ?thesis unfolding eq using False by (auto simp: sentence_end_at_def)
  qed
qed

lemma scan_end_unique:
  assumes "k \<le> e" "sentence_end_at words e" "\<forall>j. k \<le> j \<and> j < e \<longrightarrow> \<not> sentence_end_at words j"
  shows "scan_end words k = e"
proof -
  let ?t = "scan_end words k"
  from scan_end_spec [of k words]
  have t: "k \<le> ?t" "sentence_end_at words ?t" "\<forall>j. k \<le> j \<and> j < ?t \<longrightarrow> \<not> sentence_end_at words j"
    by auto
  have "\<not> e < ?t" using assms(1,2) t(3) by auto
  moreover have "\<not> ?t < e" using t(1,2) assms(3) by auto
  ultimately show ?thesis by simp
qed

text \<open>Between the start and the current index no token stops the forward scan, and vice versa.\<close>

lemma not_start_imp_not_end:
  "\<not> sentence_start_at words (m + 1) \<Longrightarrow> m + 1 \<le> int (length words) - 1 \<Longrightarrow> \<not> sentence_end_at words m"
  by (auto simp: sentence_start_at_def sentence_end_at_def)

lemma not_end_imp_not_start:
  "\<not> sentence_end_at words m \<Longrightarrow> 0 \<le> m \<Longrightarrow> \<not> sentence_start_at words (m + 1)"
  by (auto simp: sentence_start_at_def sentence_end_at_def)

lemma getSentenceRange_same_range:
  assumes i: "i \<noteq> int (length words)"
    and k: "range_start (getSentenceRange words i) \<le> k" "k \<le> range_end (getSentenceRange words i)"
  shows "getSentenceRange words k = getSentenceRange words i"
proof -
  let ?s = "scan_start words i" and ?e = "scan_end words i"
  from k have sk: "?s \<le> k" and ke: "k \<le> ?e" by (simp_all add: getSentenceRange_def)
  note S = scan_start_spec [of words i] and E = scan_end_spec [of i words]
  show ?thesis
  proof (cases "0 \<le> i \<and> i < int (length words)")
    case True
    have s0: "0 \<le> ?s"
    proof (rule ccontr)
      assume "\<not> 0 \<le> ?s"
      then have "?s < 0" by simp
      moreover have "sentence_start_at words 0" by (simp add: sentence_start_at_def)
      ultimately show False using S True by auto
    qed
    have "\<forall>j. ?s < j \<and> j \<le> k \<longrightarrow> \<not> sentence_start_at words j"
    proof (intro allI impI)
      fix j assume j: "?s < j \<and> j \<le> k"
      show "\<not> sentence_start_at words j"
      proof (cases "j \<le> i")
        case True then show ?thesis using S j by auto
      next
        case False
        then have "i \<le> j - 1 \<and> j - 1 < ?e" using j ke by auto
        then have "\<not> sentence_end_at words (j - 1)" using E by blast
        moreover have "0 \<le> j - 1" using False True by auto
        ultimately show ?thesis using not_end_imp_not_start [of words "j - 1"] by simp
      qed
    qed
    then have 1: "scan_start words k = ?s"
      using scan_start_unique [of ?s k words] sk S by blast
    have "\<forall>j. k \<le> j \<and> j < ?e \<longrightarrow> \<not> sentence_end_at words j"
    proof (intro allI impI)
      fix j assume j: "k \<le> j \<and> j < ?e"
      show "\<not> sentence_end_at words j"
      proof (cases "i \<le> j")
        case True then show ?thesis using E j by auto
      next
        case False
        then have "?s < j + 1 \<and> j + 1 \<le> i" using j sk by auto
        then have "\<not> sentence_start_at words (j + 1)" using S by blast
        moreover have "j + 1 \<le> int (length words) - 1" using False True by auto
        ultimately show ?thesis using not_start_imp_not_end by blast
      qed
    qed
    then have 2: "scan_end words k = ?e"
      using scan_end_unique [of k ?e words] ke E by blast
    show ?thesis using 1 2 by (simp add: getSentenceRange_def)
  next
    case False
    have "?s = i \<and> ?e = i"
    proof (cases "i < 0")
      case True
      then show ?thesis
        by (simp add: scan_start.simps [of words i] scan_end.simps [of words i]
            stops_scan_def js_index_def)
    next
      case False
      with \<open>\<not> (0 \<le> i \<and> i < int (length words))\<close> i have "int (length words) < i" by auto
      then show ?thesis
        by (simp add: scan_start.simps [of words i] scan_end.simps [of words i]
            stops_scan_def js_index_def)
    qed
    with sk ke have "k = i" by simp
    then show ?thesis by simp
  qed
qed

text \<open>
  C6. Sentence-range lookup is idempotent: when \<open>getSentenceRange words i\<close> is the range
  from \<open>start\<close> to \<open>end\<close>, the lookup from every position \<open>k\<close> with
  \<open>start \<le> k \<le> end\<close> gives the same range, in particular the lookup from \<open>start\<close>
  itself.  This holds for every position \<open>i\<close> other than \<open>length words\<close>, the position
  one past the last token, hence for every index of the token array.
\<close>

theorem getSentenceRange_idempotent:
  assumes "i \<noteq> int (length words)"
    and "range_start (getSentenceRange words i) \<le> k"
    and "k \<le> range_end (getSentenceRange words i)"
  shows "getSentenceRange words k = getSentenceRange words i
         \<and> getSentenceRange words (range_start (getSentenceRange words i))
             = getSentenceRange words i"
proof -
  have "range_start (getSentenceRange words i) \<le> i"
    using scan_start_spec [of words i] by (simp add: getSentenceRange_def)
  moreover have "i \<le> range_end (getSentenceRange words i)"
    using scan_end_spec [of i words] by (simp add: getSentenceRange_def)
  ultimately have "getSentenceRange words (range_start (getSentenceRange words i))
             = getSentenceRange words i"
    using getSentenceRange_same_range
      [OF assms(1), of "range_start (getSentenceRange words i)"]
    by simp
  with getSentenceRange_same_range [OF assms] show ?thesis by simp
qed

theorem getSentenceRange_idempotent_witness:
  "(1::int) \<noteq> int (length [js ''One.'', js ''two'', js ''three'', js ''four!'', js ''five''])
   \<and> range_start
        (getSentenceRange [js ''One.'', js ''two'', js ''three'', js ''four!'', js ''five''] 1) \<le> 3
   \<and> 3 \<le> range_end
        (getSentenceRange [js ''One.'', js ''two'', js ''three'', js ''four!'', js ''five''] 1)
   \<and> getSentenceRange [js ''One.'', js ''two'', js ''three'', js ''four!'', js ''five''] 3
       = \<lparr> range_start = 1, range_end = 3 \<rparr>
   \<and> getSentenceRange [js ''One.'', js ''two'', js ''three'', js ''four!'', js ''five''] 1
       = \<lparr> range_start = 1, range_end = 3 \<rparr>"
proof -
  let ?ws = "[js ''One.'', js ''two'', js ''three'', js ''four!'', js ''five'']"
  have r: "getSentenceRange ?ws 1 = \<lparr> range_start = 1, range_end = 3 \<rparr>"
    by code_simp
  have h1: "(1::int) \<noteq> int (length ?ws)" by simp
  have h2: "range_start (getSentenceRange ?ws 1) \<le> 3" unfolding r by simp
  have h3: "3 \<le> range_end (getSentenceRange ?ws 1)" unfolding r by simp
  from getSentenceRange_idempotent [OF h1 h2 h3] h1 h2 h3 r show ?thesis by simp
qed

text \<open>
  The position one past the last token is the exception: the lookup from there reaches back
  into the last sentence but ends past it.
\<close>

lemma getSentenceRange_past_last_token:
  "getSentenceRange [js ''a'', js ''b''] 2 = \<lparr> range_start = 0, range_end = 2 \<rparr>
   \<and> getSentenceRange [js ''a'', js ''b''] 0 = \<lparr> range_start = 0, range_end = 1 \<rparr>"
  by code_simp



section \<open>Tokenizer round trip\<close>

subsection \<open>Splitting at line feeds\<close>

lemma split_nl_acc_nlfree:
  "NL \<notin> set a \<Longrightarrow> split_nl_acc cur a = [rev cur @ a]"
  by (induction a arbitrary: cur) auto

lemma split_nl_acc_append:
  "NL \<notin> set a \<Longrightarrow> split_nl_acc cur (a @ NL # r) = (rev cur @ a) # [NL] # split_nl_acc [] r"
  by (induction a arbitrary: cur) auto

lemma split_nl_nlfree: "NL \<notin> set a \<Longrightarrow> split_nl a = [a]"
  by (simp add: split_nl_def split_nl_acc_nlfree)

lemma split_nl_append:
  "NL \<notin> set a \<Longrightarrow> split_nl (a @ NL # r) = a # [NL] # split_nl r"
  by (simp add: split_nl_def split_nl_acc_append)

lemma nl_cases:
  obtains (nlfree) "NL \<notin> set t" | (line) a r where "NL \<notin> set a" "t = a @ NL # r"
proof (cases "NL \<in> set t")
  case False then show ?thesis using nlfree by simp
next
  case True
  then obtain a r where "t = a @ NL # r" "NL \<notin> set a"
    by (meson split_list_first)
  then show ?thesis using line by simp
qed

lemma nl_induct [case_names nlfree line]:
  assumes "\<And>a. NL \<notin> set a \<Longrightarrow> P a"
    and "\<And>a r. NL \<notin> set a \<Longrightarrow> P r \<Longrightarrow> P (a @ NL # r)"
  shows "P t"
proof (induction t rule: length_induct)
  case (1 t)
  show ?case
  proof (cases t rule: nl_cases)
    case nlfree then show ?thesis using assms(1) by simp
  next
    case (line a r)
    then have "length r < length t" by simp
    with 1 have "P r" by simp
    with line assms(2) show ?thesis by simp
  qed
qed

subsection \<open>Tokenizer, line by line\<close>

lemma fold_push_seg:
  "fold push_seg segs acc = acc @ fold push_seg segs []"
proof (induction segs arbitrary: acc)
  case Nil then show ?case by simp
next
  case (Cons s segs)
  have "fold push_seg (s # segs) acc = fold push_seg segs (push_seg s acc)" by simp
  also have "\<dots> = push_seg s acc @ fold push_seg segs []" using Cons [of "push_seg s acc"] .
  also have "push_seg s acc = acc @ push_seg s []" by (simp add: push_seg_def)
  also have "(acc @ push_seg s []) @ fold push_seg segs [] = acc @ fold push_seg (s # segs) []"
    using Cons [of "push_seg s []"] by simp
  finally show ?case .
qed

lemma tokenize_nlfree: "NL \<notin> set a \<Longrightarrow> tokenize a = seg_words a"
  by (auto simp add: tokenize_def split_nl_nlfree push_seg_def)

lemma tokenize_line:
  assumes "NL \<notin> set a"
  shows "tokenize (a @ NL # r) = seg_words a @ [NL] # tokenize r"
proof -
  have a: "a \<noteq> [NL]" using assms by auto
  have "tokenize (a @ NL # r) = fold push_seg (split_nl r) (seg_words a @ [[NL]])"
    using assms a by (simp add: tokenize_def split_nl_append push_seg_def)
  also have "\<dots> = (seg_words a @ [[NL]]) @ tokenize r"
    using fold_push_seg [of "split_nl r" "seg_words a @ [[NL]]"] by (simp add: tokenize_def)
  finally show ?thesis by simp
qed

lemma ws_normalize_nlfree: "NL \<notin> set a \<Longrightarrow> ws_normalize a = collapse_spaces (trim a)"
  by (auto simp add: ws_normalize_def split_nl_nlfree)

lemma ws_normalize_line:
  assumes "NL \<notin> set a"
  shows "ws_normalize (a @ NL # r) = collapse_spaces (trim a) @ NL # ws_normalize r"
proof -
  have a: "a \<noteq> [NL]" using assms by auto
  show ?thesis using assms a by (simp add: ws_normalize_def split_nl_append)
qed


subsection \<open>Runs of spaces\<close>

lemma split_sp_acc_not_Nil: "split_sp_acc cur b s \<noteq> []"
  by (induction s arbitrary: cur b) auto

lemma join_sp_Cons: "ts \<noteq> [] \<Longrightarrow> join_sp (t # ts) = t @ SP # join_sp ts"
  by (cases ts) auto

lemma join_sp_split_sp_acc:
  "join_sp (split_sp_acc cur b s) = rev cur @ collapse_sp b s"
  by (induction s arbitrary: cur b) (auto simp: join_sp_Cons split_sp_acc_not_Nil)

lemma split_sp_acc_collapse:
  "split_sp_acc cur b (collapse_sp b s) = split_sp_acc cur b s"
  by (induction s arbitrary: cur b) auto

lemma collapse_sp_idem: "collapse_sp b (collapse_sp b s) = collapse_sp b s"
  by (induction s arbitrary: b) auto

lemma set_collapse_sp: "set (collapse_sp b s) \<subseteq> set s"
  by (induction s arbitrary: b) auto

lemma collapse_sp_Nil_iff: "collapse_sp False s = [] \<longleftrightarrow> s = []"
  by (cases s) auto

lemma hd_collapse_sp: "s \<noteq> [] \<Longrightarrow> hd (collapse_sp False s) = hd s"
  by (cases s) auto

lemma last_collapse_sp:
  "s \<noteq> [] \<Longrightarrow> last s \<noteq> SP \<Longrightarrow> collapse_sp b s \<noteq> [] \<and> last (collapse_sp b s) = last s"
proof (induction s arbitrary: b)
  case Nil then show ?case by simp
next
  case (Cons c cs)
  show ?case
  proof (cases "cs = []")
    case True with Cons.prems show ?thesis by simp
  next
    case False
    with Cons.prems have "last cs \<noteq> SP" by simp
    with Cons.IH False have "\<And>b. collapse_sp b cs \<noteq> [] \<and> last (collapse_sp b cs) = last cs"
      by blast
    with False show ?thesis by simp
  qed
qed

lemma no_empty_piece:
  assumes "cur \<noteq> [] \<or> b \<or> (s \<noteq> [] \<and> hd s \<noteq> SP)"
    and "s \<noteq> [] \<longrightarrow> last s \<noteq> SP"
    and "s = [] \<longrightarrow> cur \<noteq> []"
  shows "[] \<notin> set (split_sp_acc cur b s)"
  using assms
proof (induction s arbitrary: cur b)
  case Nil then show ?case by simp
next
  case (Cons c cs)
  show ?case
  proof (cases "c = SP")
    case True
    with Cons.prems have cs: "cs \<noteq> []" "last cs \<noteq> SP" by (auto split: if_splits)
    have rest: "[] \<notin> set (split_sp_acc cur' True cs)" for cur'
      using Cons.IH [of cur' True] cs by simp
    show ?thesis
    proof (cases b)
      case True with \<open>c = SP\<close> rest show ?thesis by simp
    next
      case False
      with Cons.prems \<open>c = SP\<close> have "cur \<noteq> []" by simp
      with False \<open>c = SP\<close> rest show ?thesis by simp
    qed
  next
    case False
    have "[] \<notin> set (split_sp_acc (c # cur) False cs)"
      using Cons.IH [of "c # cur" False] Cons.prems by (auto split: if_splits)
    with False show ?thesis by simp
  qed
qed

subsection \<open>Trimming\<close>

lemma trim_ends: "trim a = [] \<or> (\<not> is_ws (hd (trim a)) \<and> \<not> is_ws (last (trim a)))"
proof (cases "trim a = []")
  case True then show ?thesis by simp
next
  case False
  let ?d = "dropWhile is_ws a"
  let ?e = "dropWhile is_ws (rev ?d)"
  from False have e: "?e \<noteq> []" by (simp add: trim_def)
  have d: "?d \<noteq> []"
  proof
    assume "?d = []"
    then have "?e = []" by (simp only: rev.simps dropWhile.simps)
    with e show False by simp
  qed
  have "\<not> is_ws (hd ?e)" using e hd_dropWhile by blast
  then have l: "\<not> is_ws (last (trim a))" using e by (simp add: trim_def last_rev)
  have "last ?e = last (rev ?d)"
    using e by (metis append_Nil2 last_appendR takeWhile_dropWhile_id)
  also have "\<dots> = hd ?d" using d by (simp add: last_rev)
  finally have "hd (trim a) = hd ?d" using e by (simp add: trim_def hd_rev)
  moreover have "\<not> is_ws (hd ?d)" using d hd_dropWhile by blast
  ultimately show ?thesis using l by simp
qed

lemma trim_all_ws:
  assumes "\<forall>c \<in> set s. is_ws c"
  shows "trim s = []"
proof -
  have "dropWhile is_ws s = []" using assms by simp
  then show ?thesis unfolding trim_def by (simp only: rev.simps dropWhile.simps)
qed

lemma trim_pad:
  assumes "x = [] \<or> (\<not> is_ws (hd x) \<and> \<not> is_ws (last x))"
    and "\<forall>c \<in> set p. is_ws c" and "\<forall>c \<in> set q. is_ws c"
  shows "trim (p @ x @ q) = x"
proof (cases "x = []")
  case True
  with assms have "\<forall>c \<in> set (p @ x @ q). is_ws c" by auto
  then have "trim (p @ x @ q) = []" by (rule trim_all_ws)
  with True show ?thesis by simp
next
  case False
  then obtain h t where x: "x = h # t" by (cases x) auto
  with assms have h: "\<not> is_ws h" by simp
  have 1: "dropWhile is_ws (p @ x @ q) = x @ q"
    using assms(2) h x by (simp add: dropWhile_append3)
  from False obtain t' l where x': "x = t' @ [l]" by (metis rev_exhaust)
  with assms False have l: "\<not> is_ws l" by simp
  have "dropWhile is_ws (rev (x @ q)) = rev x"
    using assms(3) l x' by (simp add: dropWhile_append3)
  with 1 show ?thesis by (simp add: trim_def)
qed

lemma set_trim: "set (trim a) \<subseteq> set a"
proof -
  have "set (trim a) \<subseteq> set (dropWhile is_ws a)"
    unfolding trim_def using set_dropWhileD by fastforce
  also have "\<dots> \<subseteq> set a" using set_dropWhileD by fastforce
  finally show ?thesis .
qed

lemma is_ws_SP: "is_ws SP"
  by (simp add: is_ws_def SP_def)

lemma SP_neq_NL: "SP \<noteq> NL"
  by (simp add: SP_def NL_def)

lemma pad_ws:
  assumes "p = [] \<or> p = [SP]"
  shows "\<forall>c \<in> set p. is_ws c" and "NL \<notin> set p"
  using assms is_ws_SP SP_neq_NL by auto


subsection \<open>One segment\<close>

lemma collapse_trim_ends:
  "collapse_spaces (trim a) = [] \<or>
   (\<not> is_ws (hd (collapse_spaces (trim a))) \<and> \<not> is_ws (last (collapse_spaces (trim a))))"
proof (cases "trim a = []")
  case True then show ?thesis by (simp add: collapse_spaces_def)
next
  case False
  with trim_ends [of a] have e: "\<not> is_ws (hd (trim a))" "\<not> is_ws (last (trim a))" by auto
  then have "last (trim a) \<noteq> SP" using is_ws_SP by auto
  with False e show ?thesis
    by (simp add: collapse_spaces_def hd_collapse_sp last_collapse_sp)
qed

lemma join_sp_seg_words: "join_sp (seg_words a) = collapse_spaces (trim a)"
proof (cases "trim a = []")
  case True
  then show ?thesis by (simp add: seg_words_def split_sp_def collapse_spaces_def)
next
  case False
  with trim_ends [of a] have "hd (trim a) \<noteq> SP" "last (trim a) \<noteq> SP"
    using is_ws_SP by auto
  with False have "[] \<notin> set (split_sp (trim a))"
    unfolding split_sp_def by (intro no_empty_piece) auto
  then have "filter (\<lambda>w. w \<noteq> []) (split_sp (trim a)) = split_sp (trim a)"
    by (intro filter_True) auto
  then show ?thesis
    by (simp add: seg_words_def split_sp_def collapse_spaces_def join_sp_split_sp_acc)
qed

lemma trim_padded_seg:
  assumes "\<forall>c \<in> set p. is_ws c" "\<forall>c \<in> set q. is_ws c"
  shows "trim (p @ join_sp (seg_words a) @ q) = collapse_spaces (trim a)"
  unfolding join_sp_seg_words using collapse_trim_ends assms by (intro trim_pad) auto

lemma seg_words_padded:
  assumes "\<forall>c \<in> set p. is_ws c" "\<forall>c \<in> set q. is_ws c"
  shows "seg_words (p @ join_sp (seg_words a) @ q) = seg_words a"
  using trim_padded_seg [OF assms, of a]
  by (simp add: seg_words_def split_sp_def collapse_spaces_def split_sp_acc_collapse)

lemma collapse_padded:
  assumes "\<forall>c \<in> set p. is_ws c" "\<forall>c \<in> set q. is_ws c"
  shows "collapse_spaces (trim (p @ join_sp (seg_words a) @ q)) = collapse_spaces (trim a)"
  using trim_padded_seg [OF assms, of a]
  by (simp add: collapse_spaces_def collapse_sp_idem)

lemma join_sp_seg_words_nlfree: "NL \<notin> set a \<Longrightarrow> NL \<notin> set (join_sp (seg_words a))"
  unfolding join_sp_seg_words collapse_spaces_def
  using set_collapse_sp [of False "trim a"] set_trim [of a] by auto

lemma seg_words_Nil_imp: "seg_words a = [] \<Longrightarrow> collapse_spaces (trim a) = []"
  using join_sp_seg_words [of a] by simp

subsection \<open>The whole text\<close>

lemma join_sp_append:
  "join_sp (A @ B) =
     (if A = [] then join_sp B else if B = [] then join_sp A else join_sp A @ SP # join_sp B)"
proof (induction A)
  case Nil then show ?case by simp
next
  case (Cons a A)
  show ?case
  proof (cases "A = []")
    case True then show ?thesis by (simp add: join_sp_Cons)
  next
    case False
    with Cons show ?thesis by (simp add: join_sp_Cons)
  qed
qed

lemma join_sp_line:
  "join_sp (W @ [NL] # T) =
     (if W = [] then [] else join_sp W @ [SP]) @ NL # (if T = [] then [] else SP # join_sp T)"
  by (simp add: join_sp_append join_sp_Cons)

lemma tokenize_Nil: "tokenize [] = []"
  by (simp add: tokenize_def split_nl_def push_seg_def seg_words_def trim_def split_sp_def)

lemma ws_normalize_Nil: "ws_normalize [] = []"
  by (simp add: ws_normalize_def split_nl_def trim_def collapse_spaces_def)

lemma tokenize_Nil_imp: "tokenize t = [] \<Longrightarrow> ws_normalize t = []"
proof (cases t rule: nl_cases)
  case nlfree
  assume "tokenize t = []"
  with nlfree show ?thesis
    by (simp add: tokenize_nlfree ws_normalize_nlfree seg_words_Nil_imp)
next
  case (line a r)
  assume "tokenize t = []"
  with line show ?thesis by (simp add: tokenize_line)
qed

lemma roundtrip_padded:
  assumes "p = [] \<or> p = [SP]"
  shows "tokenize (p @ join_sp (tokenize t)) = tokenize t
         \<and> ws_normalize (p @ join_sp (tokenize t)) = ws_normalize t"
  using assms
proof (induction t arbitrary: p rule: nl_induct)
  case (nlfree a)
  from \<open>p = [] \<or> p = [SP]\<close> have p: "\<forall>c \<in> set p. is_ws c" "NL \<notin> set p"
    by (rule pad_ws)+
  have nl: "NL \<notin> set (p @ join_sp (seg_words a))"
    using p nlfree join_sp_seg_words_nlfree by simp
  show ?case
    using nlfree(1) nl seg_words_padded [OF p(1), of "[]" a] collapse_padded [OF p(1), of "[]" a]
    by (simp add: tokenize_nlfree ws_normalize_nlfree)
next
  case (line a r)
  from \<open>p = [] \<or> p = [SP]\<close> have p: "\<forall>c \<in> set p. is_ws c" "NL \<notin> set p"
    by (rule pad_ws)+
  let ?W = "seg_words a" and ?T = "tokenize r"
  let ?q = "if ?W = [] then [] else [SP]"
  let ?Y = "if ?T = [] then [] else SP # join_sp ?T"
  have "?q = [] \<or> ?q = [SP]" by simp
  then have q: "\<forall>c \<in> set ?q. is_ws c" "NL \<notin> set ?q"
    by (rule pad_ws)+
  have eq: "p @ join_sp (tokenize (a @ NL # r)) = (p @ join_sp ?W @ ?q) @ NL # ?Y"
    by (simp add: tokenize_line [OF line(1)] join_sp_line)
  have nl: "NL \<notin> set (p @ join_sp ?W @ ?q)"
    using p q line(1) join_sp_seg_words_nlfree by simp
  have Y: "tokenize ?Y = ?T \<and> ws_normalize ?Y = ws_normalize r"
  proof (cases "?T = []")
    case True
    then show ?thesis using tokenize_Nil ws_normalize_Nil tokenize_Nil_imp by simp
  next
    case False
    with line.IH [of "[SP]"] show ?thesis by simp
  qed
  have "tokenize (p @ join_sp (tokenize (a @ NL # r)))
          = tokenize ((p @ join_sp ?W @ ?q) @ NL # ?Y)"
    by (simp only: eq)
  also have "\<dots> = seg_words (p @ join_sp ?W @ ?q) @ [NL] # tokenize ?Y"
    by (rule tokenize_line [OF nl])
  also have "\<dots> = ?W @ [NL] # ?T"
    using seg_words_padded [OF p(1) q(1), of a] Y by simp
  also have "\<dots> = tokenize (a @ NL # r)"
    by (simp add: tokenize_line [OF line(1)])
  finally have 1: "tokenize (p @ join_sp (tokenize (a @ NL # r))) = tokenize (a @ NL # r)" .
  have "ws_normalize (p @ join_sp (tokenize (a @ NL # r)))
          = ws_normalize ((p @ join_sp ?W @ ?q) @ NL # ?Y)"
    by (simp only: eq)
  also have "\<dots> = collapse_spaces (trim (p @ join_sp ?W @ ?q)) @ NL # ws_normalize ?Y"
    by (rule ws_normalize_line [OF nl])
  also have "\<dots> = collapse_spaces (trim a) @ NL # ws_normalize r"
    using collapse_padded [OF p(1) q(1), of a] Y by simp
  also have "\<dots> = ws_normalize (a @ NL # r)"
    by (simp add: ws_normalize_line [OF line(1)])
  finally show ?case using 1 by simp
qed

subsection \<open>Joining line by line\<close>

lemma split_sp_acc_subset:
  "\<forall>w \<in> set (split_sp_acc cur b s). set w \<subseteq> set cur \<union> set s"
proof (induction s arbitrary: cur b)
  case Nil
  then show ?case by simp
next
  case (Cons c s)
  have 1: "\<forall>w \<in> set (split_sp_acc [] True s). set w \<subseteq> set s"
    using Cons.IH [of "[]" True] by simp
  have 2: "\<forall>w \<in> set (split_sp_acc cur True s). set w \<subseteq> set cur \<union> set s"
    using Cons.IH [of cur True] by simp
  have 3: "\<forall>w \<in> set (split_sp_acc (c # cur) False s). set w \<subseteq> insert c (set cur \<union> set s)"
    using Cons.IH [of "c # cur" False] by simp
  show ?case using 1 2 3 by auto
qed

lemma seg_words_not_break:
  assumes "NL \<notin> set a"
  shows "\<forall>w \<in> set (seg_words a). w \<noteq> [NL]"
proof
  fix w assume "w \<in> set (seg_words a)"
  then have "set w \<subseteq> set (trim a)"
    using split_sp_acc_subset [of "[]" False "trim a"]
    by (auto simp: seg_words_def split_sp_def)
  then have "NL \<notin> set w" using assms set_trim [of a] by auto
  then show "w \<noteq> [NL]" by auto
qed

lemma rejoin_lines_words:
  "\<forall>w \<in> set W. w \<noteq> [NL] \<Longrightarrow> rejoin_lines W = join_sp W"
  by (induction W rule: join_sp.induct) simp_all

lemma rejoin_lines_break: "rejoin_lines ([NL] # T) = NL # rejoin_lines T"
  by (cases T) simp_all

lemma rejoin_lines_line:
  "\<forall>w \<in> set W. w \<noteq> [NL] \<Longrightarrow>
     rejoin_lines (W @ [NL] # T) = join_sp W @ NL # rejoin_lines T"
proof (induction W rule: join_sp.induct)
  case 1
  then show ?case by (simp add: rejoin_lines_break)
next
  case (2 t)
  then show ?case by (simp add: rejoin_lines_break)
next
  case (3 t u ts)
  then show ?case by simp
qed

lemma rejoin_lines_tokenize: "rejoin_lines (tokenize t) = ws_normalize t"
proof (induction t rule: nl_induct)
  case (nlfree a)
  then show ?case
    by (simp add: tokenize_nlfree ws_normalize_nlfree rejoin_lines_words
        seg_words_not_break join_sp_seg_words)
next
  case (line a r)
  then show ?case
    by (simp add: tokenize_line ws_normalize_line rejoin_lines_line
        seg_words_not_break join_sp_seg_words)
qed

text \<open>
  C3. Tokenization is a function of the text alone, so the same text always gives the same
  token sequence and count.  Joining the tokens with single spaces and rendering each
  break token as a line feed gives exactly the whitespace normal form of the text (every
  segment between line feeds trimmed and its runs of spaces collapsed).  The plain join
  with a space between all neighbours equals the original up to that normalization, and
  tokenizing it again gives the same tokens, hence the same count.
\<close>

theorem tokenize_rejoin_roundtrip:
  "rejoin_lines (tokenize text) = ws_normalize text
   \<and> ws_normalize (rejoin (tokenize text)) = ws_normalize text
   \<and> tokenize (rejoin (tokenize text)) = tokenize text
   \<and> length (tokenize (rejoin (tokenize text))) = length (tokenize text)"
  using roundtrip_padded [of "[]" "text"] rejoin_lines_tokenize [of "text"]
  by (simp add: rejoin_def)

section \<open>Silent playback\<close>

lemma step_tick_advance:
  assumes "shouldPlay s" "timer s = Some d" "currentIndex s < int (length words) - 1"
  shows "step cfg words TimerTick s = Inr (s\<lparr>currentIndex := currentIndex s + 1\<rparr>)"
  using assms by (simp add: step_def timer_tick_def)

lemma step_tick_stop:
  assumes "shouldPlay s" "timer s = Some d" "int (length words) - 1 \<le> currentIndex s"
  shows "step cfg words TimerTick s
           = Inr (s\<lparr>isPlaying := False, shouldPlay := False, timer := None\<rparr>)"
  using assms by (simp add: step_def timer_tick_def)

lemma run_ticks_stopped:
  "timer s = None \<Longrightarrow> run cfg words (replicate m TimerTick) s = Inr s"
  by (induction m) (simp_all add: step_def)

lemma run_ticks_advance:
  assumes "shouldPlay s" "timer s = Some d"
    and "currentIndex s + int n \<le> int (length words) - 1"
  shows "run cfg words (replicate n TimerTick) s
           = Inr (s\<lparr>currentIndex := currentIndex s + int n\<rparr>)"
  using assms
proof (induction n arbitrary: s)
  case 0
  then show ?case by simp
next
  case (Suc n)
  let ?s1 = "s\<lparr>currentIndex := currentIndex s + 1\<rparr>"
  from Suc.prems have "step cfg words TimerTick s = Inr ?s1"
    by (intro step_tick_advance) auto
  moreover have "run cfg words (replicate n TimerTick) ?s1
      = Inr (?s1\<lparr>currentIndex := currentIndex ?s1 + int n\<rparr>)"
    using Suc.prems by (intro Suc.IH) auto
  ultimately show ?case by (simp add: add.assoc)
qed

lemma run_append:
  "run cfg words (evs1 @ evs2) s
     = (case run cfg words evs1 s of Inl e \<Rightarrow> Inl e | Inr s1 \<Rightarrow> run cfg words evs2 s1)"
  by (induction evs1 arbitrary: s) (simp_all split: sum.splits)

lemma run_ticks_at_end:
  assumes "shouldPlay s" "timer s = Some d" "int (length words) - 1 \<le> currentIndex s"
  shows "run cfg words (replicate (Suc m) TimerTick) s
           = Inr (s\<lparr>isPlaying := False, shouldPlay := False, timer := None\<rparr>)"
  using step_tick_stop [OF assms, of cfg] run_ticks_stopped [of _ cfg words m]
  by simp

lemma run_ticks_to_end:
  assumes "shouldPlay s" "timer s = Some d"
    and "currentIndex s + int n = int (length words) - 1"
  shows "run cfg words (replicate (n + Suc m) TimerTick) s
           = Inr (s\<lparr>currentIndex := int (length words) - 1, isPlaying := False,
                    shouldPlay := False, timer := None\<rparr>)"
proof -
  let ?s1 = "s\<lparr>currentIndex := currentIndex s + int n\<rparr>"
  have 1: "run cfg words (replicate n TimerTick) s = Inr ?s1"
    using assms by (intro run_ticks_advance) simp_all
  have 2: "run cfg words (replicate (Suc m) TimerTick) ?s1
      = Inr (?s1\<lparr>isPlaying := False, shouldPlay := False, timer := None\<rparr>)"
    using assms by (intro run_ticks_at_end) simp_all
  have "replicate (n + Suc m) TimerTick = replicate n TimerTick @ replicate (Suc m) TimerTick"
    by (rule replicate_add)
  then show ?thesis using 1 2 assms(3) by (simp only: run_append) simp
qed

lemma speakText_silent:
  assumes "\<not> isVoiceEnabled cfg" "\<not> (mode cfg = Wheel \<and> wheelContinuousMode cfg)"
  shows "speakText cfg words i st
     = Inr (st\<lparr>shouldPlay := True, activeUtterances := [],
               timer := Some (60000 / activeWpm cfg), chunkQueueNextIndex := i\<rparr>)"
  using assms by (auto simp add: speakText_def Let_def)

text \<open>
  C4 (as amended). In silent playback, other than in the wheel mode with its continuous
  mode on, \<open>speakText\<close> sets an interval timer with delay \<open>60000 / activeWpm\<close>
  milliseconds and leaves the current index alone.  While the index is before the last
  token each tick advances it by exactly one, so \<open>n\<close> ticks advance it by \<open>n\<close>; once the
  index has reached the last token the next tick stops playback (the play flags are
  cleared, the timer is cleared, the index stays), and later ticks change nothing.  For 1000 tokens at 300 words per minute
  the delay is 200 ms, an ideal timer has fired 10 times after 2000 ms, and 9, 10 or 11
  ticks advance the index by 9, 10 or 11.
\<close>

theorem silent_playback_timer:
  assumes "\<not> isVoiceEnabled cfg" and "\<not> (mode cfg = Wheel \<and> wheelContinuousMode cfg)"
  shows "\<exists>st1. speakText cfg words i st = Inr st1
           \<and> timer st1 = Some (60000 / activeWpm cfg)
           \<and> shouldPlay st1 \<and> currentIndex st1 = currentIndex st
           \<and> (currentIndex st1 < int (length words) - 1 \<longrightarrow>
                step cfg words TimerTick st1
                  = Inr (st1\<lparr>currentIndex := currentIndex st1 + 1\<rparr>))
           \<and> (\<forall>n. currentIndex st1 + int n \<le> int (length words) - 1 \<longrightarrow>
                run cfg words (replicate n TimerTick) st1
                  = Inr (st1\<lparr>currentIndex := currentIndex st1 + int n\<rparr>))
           \<and> (\<forall>n m. currentIndex st1 + int n = int (length words) - 1 \<longrightarrow>
                run cfg words (replicate (n + Suc m) TimerTick) st1
                  = Inr (st1\<lparr>currentIndex := int (length words) - 1, isPlaying := False,
                           shouldPlay := False, timer := None\<rparr>))
           \<and> (length words = 1000 \<and> activeWpm cfg = 300 \<longrightarrow>
                timer st1 = Some 200 \<and> ticks_elapsed 200 2000 = 10
                \<and> (\<forall>n. 9 \<le> n \<and> n \<le> 11 \<and> currentIndex st1 + 11 \<le> 999 \<longrightarrow>
                     run cfg words (replicate n TimerTick) st1
                       = Inr (st1\<lparr>currentIndex := currentIndex st1 + int n\<rparr>)))"
proof -
  let ?st1 = "st\<lparr>shouldPlay := True, activeUtterances := [],
               timer := Some (60000 / activeWpm cfg), chunkQueueNextIndex := i\<rparr>"
  have sp: "shouldPlay ?st1" and tm: "timer ?st1 = Some (60000 / activeWpm cfg)" by simp_all
  note adv = run_ticks_advance [OF sp tm, of _ words cfg]
  have 1: "speakText cfg words i st = Inr ?st1" using assms by (rule speakText_silent)
  have 2: "currentIndex ?st1 < int (length words) - 1 \<longrightarrow>
      step cfg words TimerTick ?st1 = Inr (?st1\<lparr>currentIndex := currentIndex ?st1 + 1\<rparr>)"
    using step_tick_advance [OF sp tm, of words cfg] by blast
  have 3: "\<forall>n. currentIndex ?st1 + int n \<le> int (length words) - 1 \<longrightarrow>
      run cfg words (replicate n TimerTick) ?st1
        = Inr (?st1\<lparr>currentIndex := currentIndex ?st1 + int n\<rparr>)"
    using adv by blast
  have 4: "\<forall>n m. currentIndex ?st1 + int n = int (length words) - 1 \<longrightarrow>
      run cfg words (replicate (n + Suc m) TimerTick) ?st1
        = Inr (?st1\<lparr>currentIndex := int (length words) - 1, isPlaying := False,
                  shouldPlay := False, timer := None\<rparr>)"
    using run_ticks_to_end [OF sp tm, of _ words cfg] by blast
  have te: "ticks_elapsed 200 2000 = 10" by (simp add: ticks_elapsed_def)
  have 5: "length words = 1000 \<and> activeWpm cfg = 300 \<longrightarrow>
      timer ?st1 = Some 200 \<and> ticks_elapsed 200 2000 = 10
      \<and> (\<forall>n. 9 \<le> n \<and> n \<le> 11 \<and> currentIndex ?st1 + 11 \<le> 999 \<longrightarrow>
           run cfg words (replicate n TimerTick) ?st1
             = Inr (?st1\<lparr>currentIndex := currentIndex ?st1 + int n\<rparr>))"
  proof (intro impI conjI allI)
    assume h: "length words = 1000 \<and> activeWpm cfg = 300"
    then show "timer ?st1 = Some 200" by simp
    show "ticks_elapsed 200 2000 = 10" by (rule te)
    fix n :: nat
    assume "9 \<le> n \<and> n \<le> 11 \<and> currentIndex ?st1 + 11 \<le> 999"
    with h have "currentIndex ?st1 + int n \<le> int (length words) - 1" by simp
    then show "run cfg words (replicate n TimerTick) ?st1
             = Inr (?st1\<lparr>currentIndex := currentIndex ?st1 + int n\<rparr>)"
      by (rule adv)
  qed
  show ?thesis
    apply (rule exI [of _ ?st1])
    apply (intro conjI)
    apply (rule 1)
    apply (rule tm)
    apply (rule sp)
    apply simp
    apply (rule 2)
    apply (rule 3)
    apply (rule 4)
    apply (rule 5)
    done
qed


theorem silent_playback_timer_witness:
  "speakText
     \<lparr> mode = Spritz, spritzEnabled = False, wheelEnabled = False, tiktokEnabled = False,
       normalEnabled = False, wheelContinuousMode = False, spritzWpm = 300, normalWpm = 250,
       rate = 1, repeatMode = Off \<rparr>
     (replicate 1000 (js ''word'')) 0
     \<lparr> currentIndex = 0, isPlaying = True, shouldPlay = True, timer = None,
       chunkQueueNextIndex = 0, activeUtterances = [] \<rparr>
   = Inr \<lparr> currentIndex = 0, isPlaying = True, shouldPlay = True, timer = Some 200,
          chunkQueueNextIndex = 0, activeUtterances = [] \<rparr>
   \<and> ticks_elapsed 200 2000 = 10
   \<and> run
     \<lparr> mode = Spritz, spritzEnabled = False, wheelEnabled = False, tiktokEnabled = False,
       normalEnabled = False, wheelContinuousMode = False, spritzWpm = 300, normalWpm = 250,
       rate = 1, repeatMode = Off \<rparr>
     (replicate 1000 (js ''word'')) (replicate 10 TimerTick)
     \<lparr> currentIndex = 0, isPlaying = True, shouldPlay = True, timer = Some 200,
       chunkQueueNextIndex = 0, activeUtterances = [] \<rparr>
   = Inr \<lparr> currentIndex = 10, isPlaying = True, shouldPlay = True, timer = Some 200,
          chunkQueueNextIndex = 0, activeUtterances = [] \<rparr>"
proof -
  let ?cfg = "\<lparr> mode = Spritz, spritzEnabled = False, wheelEnabled = False,
       tiktokEnabled = False, normalEnabled = False, wheelContinuousMode = False,
       spritzWpm = 300, normalWpm = 250, rate = 1, repeatMode = Off \<rparr>"
  let ?ws = "replicate 1000 (js ''word'')"
  let ?st = "\<lparr> currentIndex = 0, isPlaying = True, shouldPlay = True, timer = None,
       chunkQueueNextIndex = 0, activeUtterances = [] \<rparr>"
  let ?st1 = "\<lparr> currentIndex = 0, isPlaying = True, shouldPlay = True, timer = Some 200,
          chunkQueueNextIndex = 0, activeUtterances = [] \<rparr>"
  have h1: "\<not> isVoiceEnabled ?cfg" by (simp add: isVoiceEnabled_def)
  have h2: "\<not> (mode ?cfg = Wheel \<and> wheelContinuousMode ?cfg)" by simp
  have wpm: "activeWpm ?cfg = 300" by (simp add: activeWpm_def)
  from silent_playback_timer [OF h1 h2, of ?ws 0 ?st] obtain st1 where
    a: "speakText ?cfg ?ws 0 ?st = Inr st1"
    and b: "timer st1 = Some (60000 / activeWpm ?cfg)"
    and c: "currentIndex st1 = currentIndex ?st"
    and d: "length ?ws = 1000 \<and> activeWpm ?cfg = 300 \<longrightarrow>
                timer st1 = Some 200 \<and> ticks_elapsed 200 2000 = 10
                \<and> (\<forall>n. 9 \<le> n \<and> n \<le> 11 \<and> currentIndex st1 + 11 \<le> 999 \<longrightarrow>
                     run ?cfg ?ws (replicate n TimerTick) st1
                       = Inr (st1\<lparr>currentIndex := currentIndex st1 + int n\<rparr>))"
    by blast
  have "speakText ?cfg ?ws 0 ?st = Inr ?st1"
    by (simp add: speakText_def isVoiceEnabled_def activeWpm_def)
  with a have st1: "st1 = ?st1" by simp
  from d wpm have e: "ticks_elapsed 200 2000 = 10"
    and f: "\<forall>n. 9 \<le> n \<and> n \<le> 11 \<and> currentIndex st1 + 11 \<le> 999 \<longrightarrow>
                     run ?cfg ?ws (replicate n TimerTick) st1
                       = Inr (st1\<lparr>currentIndex := currentIndex st1 + int n\<rparr>)"
    by simp_all
  from f [rule_format, of 10] c have
    "run ?cfg ?ws (replicate 10 TimerTick) st1
       = Inr (st1\<lparr>currentIndex := currentIndex st1 + 10\<rparr>)"
    by simp
  with a e show ?thesis unfolding st1 by simp
qed

text \<open>
  C4 as stated fails in the wheel's continuous mode: playback is silent, but \<open>speakText\<close>
  returns before it sets a timer, so no tick ever advances the index.
\<close>

theorem silent_wheel_continuous_no_timer:
  "\<not> isVoiceEnabled
       \<lparr> mode = Wheel, spritzEnabled = False, wheelEnabled = False, tiktokEnabled = False,
         normalEnabled = False, wheelContinuousMode = True, spritzWpm = 300, normalWpm = 250,
         rate = 1, repeatMode = Off \<rparr>
   \<and> speakText
       \<lparr> mode = Wheel, spritzEnabled = False, wheelEnabled = False, tiktokEnabled = False,
         normalEnabled = False, wheelContinuousMode = True, spritzWpm = 300, normalWpm = 250,
         rate = 1, repeatMode = Off \<rparr>
       (replicate 1000 (js ''word'')) 0
       \<lparr> currentIndex = 0, isPlaying = True, shouldPlay = True, timer = None,
         chunkQueueNextIndex = 0, activeUtterances = [] \<rparr>
     = Inr \<lparr> currentIndex = 0, isPlaying = True, shouldPlay = True, timer = None,
            chunkQueueNextIndex = 0, activeUtterances = [] \<rparr>
   \<and> run
       \<lparr> mode = Wheel, spritzEnabled = False, wheelEnabled = False, tiktokEnabled = False,
         normalEnabled = False, wheelContinuousMode = True, spritzWpm = 300, normalWpm = 250,
         rate = 1, repeatMode = Off \<rparr>
       (replicate 1000 (js ''word'')) (replicate 10 TimerTick)
       \<lparr> currentIndex = 0, isPlaying = True, shouldPlay = True, timer = None,
         chunkQueueNextIndex = 0, activeUtterances = [] \<rparr>
     = Inr \<lparr> currentIndex = 0, isPlaying = True, shouldPlay = True, timer = None,
            chunkQueueNextIndex = 0, activeUtterances = [] \<rparr>"
  by (simp add: isVoiceEnabled_def speakText_def run_ticks_stopped)

section \<open>Index bounds\<close>

subsection \<open>Tokens carry no space\<close>

lemma split_sp_acc_no_space:
  "SP \<notin> set cur \<Longrightarrow> \<forall>w \<in> set (split_sp_acc cur b s). SP \<notin> set w"
proof (induction s arbitrary: cur b)
  case Nil
  then show ?case by simp
next
  case (Cons c s)
  have 1: "\<forall>w \<in> set (split_sp_acc [] True s). SP \<notin> set w"
    using Cons.IH [of "[]" True] by simp
  have 2: "\<forall>w \<in> set (split_sp_acc cur True s). SP \<notin> set w"
    using Cons.IH [of cur True] Cons.prems by simp
  have 3: "c \<noteq> SP \<Longrightarrow> \<forall>w \<in> set (split_sp_acc (c # cur) False s). SP \<notin> set w"
    using Cons.IH [of "c # cur" False] Cons.prems by simp
  show ?case using 1 2 3 Cons.prems by simp
qed

lemma seg_words_no_space: "w \<in> set (seg_words a) \<Longrightarrow> SP \<notin> set w"
  using split_sp_acc_no_space [of "[]" False "trim a"]
  by (auto simp: seg_words_def split_sp_def)

lemma tokenize_no_space: "w \<in> set (tokenize t) \<Longrightarrow> SP \<notin> set w"
proof (induction t rule: nl_induct)
  case (nlfree a)
  then show ?case by (simp add: tokenize_nlfree seg_words_no_space)
next
  case (line a r)
  then show ?case
    using seg_words_no_space [of w a] SP_neq_NL by (auto simp: tokenize_line)
qed

subsection \<open>Spaces in joined tokens\<close>

lemma count_sp_append: "count_sp (a @ b) = count_sp a + count_sp b"
  by (simp add: count_sp_def)

lemma count_sp_nonneg: "0 \<le> count_sp s"
  by (simp add: count_sp_def)

lemma count_sp_no_space: "SP \<notin> set w \<Longrightarrow> count_sp w = 0"
  by (auto simp: count_sp_def filter_empty_conv)

lemma count_sp_Cons: "count_sp (c # s) = (if c = SP then 1 else 0) + count_sp s"
  by (simp add: count_sp_def)

lemma count_sp_join:
  "\<forall>w \<in> set ws. SP \<notin> set w \<Longrightarrow> count_sp (join_sp ws) = int (length ws) - (if ws = [] then 0 else 1)"
proof (induction ws rule: join_sp.induct)
  case 1
  then show ?case by (simp add: count_sp_def)
next
  case (2 t)
  then show ?case by (simp add: count_sp_no_space)
next
  case (3 t u ts)
  then show ?case by (simp add: count_sp_append count_sp_Cons count_sp_no_space)
qed

lemma count_sp_take: "count_sp (take k s) \<le> count_sp s"
proof -
  have "count_sp s = count_sp (take k s) + count_sp (drop k s)"
    using count_sp_append [of "take k s" "drop k s"] by simp
  then show ?thesis using count_sp_nonneg [of "drop k s"] by simp
qed

lemma js_slice_0: "js_slice s 0 e = take (js_pos (length s) e) s"
  by (simp add: js_slice_def js_pos_def)

lemma count_sp_slice_0: "count_sp (js_slice s 0 e) \<le> count_sp s"
  by (simp add: js_slice_0 count_sp_take)

lemma strip_trailing_punct_take: "\<exists>k. strip_trailing_punct s = take k s"
proof -
  have "rev s = takeWhile is_phrase_punct (rev s) @ dropWhile is_phrase_punct (rev s)" by simp
  then have "s = rev (dropWhile is_phrase_punct (rev s)) @ rev (takeWhile is_phrase_punct (rev s))" 
    by (metis rev_append rev_rev_ident)
  then have "take (length (rev (dropWhile is_phrase_punct (rev s)))) s = rev (dropWhile is_phrase_punct (rev s))"
    by (metis append_eq_conv_conj)
  then show ?thesis unfolding strip_trailing_punct_def by metis
qed

lemma count_sp_strip: "count_sp (strip_trailing_punct s) \<le> count_sp s"
  using strip_trailing_punct_take [of s] count_sp_take by metis

lemma js_slice_range:
  assumes "0 \<le> s" "s \<le> e" "e \<le> int (length xs)"
  shows "length (js_slice xs s e) = nat (e - s)" and "set (js_slice xs s e) \<subseteq> set xs"
proof -
  have "nat e \<le> length xs" "nat s \<le> length xs" using assms by linarith+
  then have "js_slice xs s e = take (nat e - nat s) (drop (nat s) xs)"
    using assms by (simp add: js_slice_def js_pos_def min_def Let_def)
  then show "length (js_slice xs s e) = nat (e - s)" and "set (js_slice xs s e) \<subseteq> set xs"
    using assms by (auto dest: in_set_takeD in_set_dropD)
qed


subsection \<open>Chunks\<close>

lemma unit_scan_ge: "s \<le> unit_scan cls ws s"
proof (induction cls ws s rule: unit_scan.induct)
  case (1 cls ws s)
  show ?case
  proof (cases "s < int (length ws) \<and> \<not> closes_unit cls (js_index ws s)")
    case True
    with 1 have "s + 1 \<le> unit_scan cls ws (s + 1)" by simp
    with True show ?thesis by (simp add: unit_scan.simps [of cls ws s])
  next
    case False
    then show ?thesis by (auto simp add: unit_scan.simps [of cls ws s])
  qed
qed

lemma lookback_scan_Some:
  "lookback_scan ws limit lb = Some e \<Longrightarrow> limit + 1 < e \<and> e \<le> lb + 1"
proof (induction ws limit lb rule: lookback_scan.induct)
  case (1 ws limit lb)
  show ?case
  proof (cases "lb > limit \<and> \<not> closes_sentence (js_index ws lb)")
    case True
    with "1.prems" have "lookback_scan ws limit (lb - 1) = Some e"
      by (simp add: lookback_scan.simps [of ws limit lb])
    with True "1.IH" show ?thesis by simp
  next
    case False
    with "1.prems" show ?thesis
      by (auto simp add: lookback_scan.simps [of ws limit lb] split: if_splits)
  qed
qed

lemma slice_chunk_bound:
  assumes "\<forall>w \<in> set words. SP \<notin> set w" and "0 \<le> s" "s < e" "e \<le> int (length words)"
  shows "s + count_sp (join_sp (js_slice words s e)) \<le> int (length words) - 1"
proof -
  let ?sl = "js_slice words s e"
  have len: "length ?sl = nat (e - s)" and sub: "set ?sl \<subseteq> set words"
    using js_slice_range [of s e words] assms by simp_all
  then have "?sl \<noteq> []" using assms by auto
  moreover have "\<forall>w \<in> set ?sl. SP \<notin> set w" using sub assms(1) by auto
  ultimately have "count_sp (join_sp ?sl) = int (length ?sl) - 1"
    by (simp add: count_sp_join)
  with len assms show ?thesis by simp
qed

lemma getNextLargeChunk_end:
  assumes "s < int (length ws)"
  shows "s < c_end (getNextLargeChunk ws s) \<and> c_end (getNextLargeChunk ws s) \<le> int (length ws)"
proof -
  let ?end0 = "min (int (length ws)) (s + 4000)"
  let ?lb = "lookback_scan ws (max s (?end0 - 500)) ?end0"
  have e0: "s < ?end0" "?end0 \<le> int (length ws)" using assms by simp_all
  have ce: "c_end (getNextLargeChunk ws s) = (if ?end0 < int (length ws)
                   then (case ?lb of Some e \<Rightarrow> e | None \<Rightarrow> ?end0) else ?end0)"
    by (simp add: getNextLargeChunk_def Let_def)
  show ?thesis
  proof (cases ?lb)
    case None
    with ce e0 show ?thesis by (simp split: if_splits)
  next
    case (Some e)
    then have "max s (?end0 - 500) + 1 < e \<and> e \<le> ?end0 + 1" by (rule lookback_scan_Some)
    then have "s < e" "?end0 < int (length ws) \<longrightarrow> e \<le> int (length ws)" by auto
    with ce e0 Some show ?thesis by (simp split: if_splits)
  qed
qed

lemma unit_chunk_end:
  assumes "s < int (length ws)"
  shows "s < c_end (unit_chunk cls ws s) \<and> c_end (unit_chunk cls ws s) \<le> int (length ws)"
  using assms unit_scan_ge [of s cls ws] by (simp add: unit_chunk_def Let_def)

lemma next_chunk_ok:
  assumes sp: "\<forall>w \<in> set words. SP \<notin> set w" and s: "0 \<le> s" "s < int (length words)"
  shows "\<exists>ch. next_chunk rm words s = Inr ch \<and> c_start ch = s \<and> s < c_end ch
           \<and> c_end ch \<le> int (length words)
           \<and> s + count_sp (c_text ch) \<le> int (length words) - 1"
proof (cases rm)
  case Off
  let ?ch = "getNextLargeChunk words s"
  have t: "c_text ?ch = join_sp (js_slice words s (c_end ?ch))" and st: "c_start ?ch = s"
    by (simp_all add: getNextLargeChunk_def Let_def)
  from getNextLargeChunk_end [OF s(2)] t st slice_chunk_bound [OF sp s(1), of "c_end ?ch"]
  show ?thesis using Off by (simp add: next_chunk_def)
next
  case Word
  from s have "js_index words s = Some (words ! nat s)" by (simp add: js_index_def)
  moreover have "words ! nat s \<in> set words" using s by simp
  then have "count_sp (words ! nat s) = 0" using sp count_sp_no_space by blast
  ultimately show ?thesis using Word s by (simp add: next_chunk_def)
next
  case Phrase
  let ?ch = "unit_chunk is_phrase_punct words s"
  have t: "c_text ?ch = join_sp (js_slice words s (c_end ?ch))" and st: "c_start ?ch = s"
    by (simp_all add: unit_chunk_def Let_def)
  from unit_chunk_end [OF s(2), of is_phrase_punct] t st
    slice_chunk_bound [OF sp s(1), of "c_end ?ch"]
  show ?thesis using Phrase by (simp add: next_chunk_def)
next
  case Sentence
  let ?ch = "unit_chunk is_sentence_punct words s"
  have t: "c_text ?ch = join_sp (js_slice words s (c_end ?ch))" and st: "c_start ?ch = s"
    by (simp_all add: unit_chunk_def Let_def)
  from unit_chunk_end [OF s(2), of is_sentence_punct] t st
    slice_chunk_bound [OF sp s(1), of "c_end ?ch"]
  show ?thesis using Sentence by (simp add: next_chunk_def)
qed

lemma make_utterance_ok:
  assumes "0 \<le> c_start ch" "c_start ch + count_sp (c_text ch) \<le> int (length words) - 1"
  shows "utterance_ok words (make_utterance rm ch)"
  using assms count_sp_strip [of "c_text ch"] by (simp add: utterance_ok_def make_utterance_def)

subsection \<open>Transitions keep the invariant\<close>

lemma enqueueNextChunk_ok:
  "\<forall>w \<in> set words. SP \<notin> set w \<Longrightarrow> player_ok words st \<Longrightarrow>
    \<exists>st'. enqueueNextChunk cfg words st = Inr st' \<and> player_ok words st'
           \<and> currentIndex st' = currentIndex st"
proof (induction cfg words st rule: enqueueNextChunk.induct)
  case (1 cfg words st)
  note sp = \<open>\<forall>w \<in> set words. SP \<notin> set w\<close> and ok = \<open>player_ok words st\<close>
  show ?case
  proof (cases "\<not> shouldPlay st \<or> length (activeUtterances st) \<ge> 2
                \<or> chunkQueueNextIndex st \<ge> int (length words)")
    case True
    then have "enqueueNextChunk cfg words st = Inr st"
      by (auto simp add: enqueueNextChunk.simps [of cfg words st])
    with ok show ?thesis by simp
  next
    case False
    then have g: "shouldPlay st" "\<not> length (activeUtterances st) \<ge> 2"
      "\<not> chunkQueueNextIndex st \<ge> int (length words)" by auto
    from ok have s0: "0 \<le> chunkQueueNextIndex st" by (simp add: player_ok_def)
    from g(3) have s1: "chunkQueueNextIndex st < int (length words)" by simp
    from next_chunk_ok [OF sp s0 s1, of "repeatMode cfg"] obtain ch where
      ch: "next_chunk (repeatMode cfg) words (chunkQueueNextIndex st) = Inr ch"
      and cs: "c_start ch = chunkQueueNextIndex st"
      and ce: "chunkQueueNextIndex st < c_end ch" "c_end ch \<le> int (length words)"
      and cb: "chunkQueueNextIndex st + count_sp (c_text ch) \<le> int (length words) - 1"
      by blast
    show ?thesis
    proof (cases "trim (c_text ch) = []")
      case True
      let ?st1 = "st\<lparr>chunkQueueNextIndex := c_end ch\<rparr>"
      have ok1: "player_ok words ?st1" using ok ce s0 by (simp add: player_ok_def)
      show ?thesis
      proof (cases "c_end ch < int (length words)")
        case True
        have "\<exists>st'. enqueueNextChunk cfg words ?st1 = Inr st' \<and> player_ok words st'
           \<and> currentIndex st' = currentIndex ?st1"
          using "1.IH"(1) [of ch] g ch \<open>trim (c_text ch) = []\<close> True sp ok1 by blast
        then obtain st' where "enqueueNextChunk cfg words ?st1 = Inr st'" "player_ok words st'"
          "currentIndex st' = currentIndex ?st1" by blast
        moreover have "enqueueNextChunk cfg words st = enqueueNextChunk cfg words ?st1"
          using g ch \<open>trim (c_text ch) = []\<close> True
          by (simp add: enqueueNextChunk.simps [of cfg words st])
        ultimately show ?thesis by simp
      next
        case False
        then have "enqueueNextChunk cfg words st = Inr ?st1"
          using g ch \<open>trim (c_text ch) = []\<close>
          by (simp add: enqueueNextChunk.simps [of cfg words st])
        with ok1 show ?thesis by simp
      qed
    next
      case False
      let ?st1 = "st\<lparr>chunkQueueNextIndex := c_end ch,
                    activeUtterances :=
                      activeUtterances st @ [make_utterance (repeatMode cfg) ch]\<rparr>"
      have "utterance_ok words (make_utterance (repeatMode cfg) ch)"
        using cs s0 cb by (intro make_utterance_ok) simp_all
      then have ok1: "player_ok words ?st1" using ok ce s0 by (simp add: player_ok_def)
      have "\<exists>st'. enqueueNextChunk cfg words ?st1 = Inr st' \<and> player_ok words st'
           \<and> currentIndex st' = currentIndex ?st1"
        using "1.IH"(2) [of ch] g ch False sp ok1 by blast
      then obtain st' where "enqueueNextChunk cfg words ?st1 = Inr st'" "player_ok words st'"
        "currentIndex st' = currentIndex ?st1" by blast
      moreover have "enqueueNextChunk cfg words st = enqueueNextChunk cfg words ?st1"
        using g ch False by (simp add: enqueueNextChunk.simps [of cfg words st])
      ultimately show ?thesis by simp
    qed
  qed
qed


lemma speakText_ok:
  assumes sp: "\<forall>w \<in> set words. SP \<notin> set w"
    and cur: "0 \<le> currentIndex st" "currentIndex st \<le> int (length words) - 1"
    and i: "0 \<le> i"
  shows "\<exists>st'. speakText cfg words i st = Inr st' \<and> player_ok words st'
           \<and> currentIndex st' = currentIndex st"
proof -
  let ?st1 = "st\<lparr>shouldPlay := True, activeUtterances := [], timer := None,
                   chunkQueueNextIndex := i\<rparr>"
  have ok1: "player_ok words ?st1" using cur i by (simp add: player_ok_def)
  show ?thesis
  proof (cases "isVoiceEnabled cfg")
    case False
    then show ?thesis using ok1 by (auto simp add: speakText_def Let_def player_ok_def)
  next
    case True
    from enqueueNextChunk_ok [OF sp ok1, of cfg] obtain st2 where
      2: "enqueueNextChunk cfg words ?st1 = Inr st2" "player_ok words st2"
         "currentIndex st2 = currentIndex ?st1" by blast
    from enqueueNextChunk_ok [OF sp 2(2), of cfg] obtain st3 where
      3: "enqueueNextChunk cfg words st2 = Inr st3" "player_ok words st3"
         "currentIndex st3 = currentIndex st2" by blast
    from True 2 3 show ?thesis by (simp add: speakText_def Let_def)
  qed
qed

lemma scan_start_nonneg: "0 \<le> m \<Longrightarrow> 0 \<le> scan_start words m"
proof (rule ccontr)
  assume "0 \<le> m" and "\<not> 0 \<le> scan_start words m"
  then have "scan_start words m < 0" by simp
  moreover have "sentence_start_at words 0" by (simp add: sentence_start_at_def)
  ultimately show False using scan_start_spec [of words m] \<open>0 \<le> m\<close> by auto
qed

lemma navigateBySentence_bounds:
  assumes "0 \<le> i" "i \<le> int (length words) - 1"
  shows "0 \<le> navigateBySentence words i dir
         \<and> navigateBySentence words i dir \<le> int (length words) - 1"
proof (cases dir)
  case Forward
  have "i \<le> scan_end words i" using scan_end_spec [of i words] by simp
  with assms have "0 \<le> min (int (length words) - 1) (scan_end words i + 1)
      \<and> min (int (length words) - 1) (scan_end words i + 1) \<le> int (length words) - 1"
    by linarith
  with Forward show ?thesis
    by (simp only: navigateBySentence_def getSentenceRange_def Let_def direction.case
        range.simps)
next
  case Backward
  let ?s = "scan_start words i"
  let ?p = "scan_start words (max 0 (?s - 2))"
  have s: "0 \<le> ?s" "?s \<le> i"
    using scan_start_nonneg [OF assms(1)] scan_start_spec [of words i] by simp_all
  have p: "0 \<le> ?p" "?p \<le> max 0 (?s - 2)"
    using scan_start_nonneg [of "max 0 (?s - 2)" words]
      scan_start_spec [of words "max 0 (?s - 2)"] by simp_all
  from s p have "?p \<le> i" by simp
  with Backward assms s p show ?thesis
    by (simp add: navigateBySentence_def getSentenceRange_def Let_def)
qed

lemma onboundary_ok:
  assumes "player_ok words st" "utterance_ok words u"
  shows "player_ok words (onboundary u charIndex st)"
proof -
  let ?ci = "if isRepeating u \<and> charIndex \<ge> int (length (firstPart u)) + 1
             then charIndex - (int (length (firstPart u)) + 1) else charIndex"
  let ?ref = "if isRepeating u then firstPart u else c_text (u_chunk u)"
  let ?new = "c_start (u_chunk u) + count_sp (js_slice ?ref 0 ?ci)"
  have "count_sp ?ref \<le> count_sp (c_text (u_chunk u))"
    using assms(2) by (simp add: utterance_ok_def)
  then have "count_sp (js_slice ?ref 0 ?ci) \<le> count_sp (c_text (u_chunk u))"
    using count_sp_slice_0 [of ?ref ?ci] by linarith
  then have new: "0 \<le> ?new" "?new \<le> int (length words) - 1"
    using assms(2) count_sp_nonneg [of "js_slice ?ref 0 ?ci"]
    by (simp_all add: utterance_ok_def)
  have "onboundary u charIndex st = st \<or> onboundary u charIndex st = st\<lparr>currentIndex := ?new\<rparr>"
    by (simp add: onboundary_def Let_def count_sp_def)
  with new assms(1) show ?thesis by (auto simp: player_ok_def)
qed

lemma list_all_delete_at: "list_all P xs \<Longrightarrow> list_all P (delete_at k xs)"
  by (auto simp: delete_at_def list_all_iff dest: in_set_takeD in_set_dropD)

lemma step_ok:
  assumes sp: "\<forall>w \<in> set words. SP \<notin> set w" and ne: "words \<noteq> []"
    and ok: "player_ok words st" and ev: "event_ok words ev"
  shows "\<exists>st'. step cfg words ev st = Inr st' \<and> player_ok words st'"
proof -
  from ok have cur: "0 \<le> currentIndex st" "currentIndex st \<le> int (length words) - 1"
    by (simp_all add: player_ok_def)
  from ne have len: "0 \<le> int (length words) - 1" by (cases words) simp_all
  have seek: "\<exists>st'. speakText cfg words i st1 = Inr st' \<and> player_ok words st'"
    if "0 \<le> i" "i \<le> int (length words) - 1" "currentIndex st1 = i" for i st1
    using speakText_ok [OF sp, of st1 i cfg] that by auto
  have moved: "player_ok words (st\<lparr>currentIndex := i\<rparr>)"
    if "0 \<le> i" "i \<le> int (length words) - 1" for i
    using ok that by (simp add: player_ok_def)
  show ?thesis
  proof (cases ev)
    case (ChangePosition delta)
    let ?n = "max 0 (min (int (length words) - 1) (currentIndex st + delta))"
    have n: "0 \<le> ?n" "?n \<le> int (length words) - 1" using len by simp_all
    from seek [OF n, of "st\<lparr>currentIndex := ?n\<rparr>"] moved [OF n] ChangePosition
    show ?thesis by (simp add: step_def changePosition_def Let_def)
  next
    case (NavigateBySentence dir)
    let ?n = "navigateBySentence words (currentIndex st) dir"
    from navigateBySentence_bounds [OF cur, of dir]
    have n: "0 \<le> ?n" "?n \<le> int (length words) - 1" by simp_all
    from seek [OF n, of "st\<lparr>currentIndex := ?n, shouldPlay := True, activeUtterances := [],
          chunkQueueNextIndex := ?n\<rparr>"] moved [OF n] NavigateBySentence
    show ?thesis by (simp add: step_def navigateBySentence_step_def Let_def)
  next
    case (WordClick index)
    with ev have n: "0 \<le> index" "index \<le> int (length words) - 1"
      by (simp_all add: event_ok_def)
    from seek [OF n, of "st\<lparr>currentIndex := index, isPlaying := True, shouldPlay := True\<rparr>"]
      WordClick
    show ?thesis by (simp add: step_def handleWordClick_def)
  next
    case TimerTick
    have "player_ok words (timer_tick words st)"
      using ok by (auto simp add: timer_tick_def player_ok_def)
    with ok TimerTick show ?thesis by (simp add: step_def split: option.splits)
  next
    case (SpeechBoundary k charIndex)
    show ?thesis
    proof (cases "k < length (activeUtterances st)")
      case True
      then have "utterance_ok words (activeUtterances st ! k)"
        using ok by (simp add: player_ok_def list_all_length)
      from onboundary_ok [OF ok this] True SpeechBoundary show ?thesis
        by (simp add: step_def)
    next
      case False
      with ok SpeechBoundary show ?thesis by (simp add: step_def)
    qed
  next
    case (UtteranceEnd k)
    show ?thesis
    proof (cases "k < length (activeUtterances st)")
      case True
      let ?st1 = "st\<lparr>activeUtterances := delete_at k (activeUtterances st)\<rparr>"
      have "player_ok words ?st1"
        using ok list_all_delete_at by (auto simp add: player_ok_def)
      from enqueueNextChunk_ok [OF sp this, of cfg] obtain st2 where
        2: "enqueueNextChunk cfg words ?st1 = Inr st2" "player_ok words st2" by blast
      then have "player_ok words (st2\<lparr>isPlaying := False, shouldPlay := False\<rparr>)"
        by (simp add: player_ok_def)
      with 2 True UtteranceEnd show ?thesis by (simp add: step_def onend_def)
    next
      case False
      with ok UtteranceEnd show ?thesis by (simp add: step_def onend_def)
    qed
  next
    case (UtteranceError k)
    have "player_ok words (onerror k st)"
      using ok list_all_delete_at by (auto simp add: player_ok_def onerror_def)
    with UtteranceError show ?thesis by (simp add: step_def)
  next
    case TogglePlay
    have "player_ok words (st\<lparr>shouldPlay := False, timer := None, isPlaying := False\<rparr>)"
      using ok by (simp add: player_ok_def)
    moreover have "\<exists>st'. speakText cfg words (currentIndex st)
        (st\<lparr>shouldPlay := True, isPlaying := True\<rparr>) = Inr st' \<and> player_ok words st'"
      using speakText_ok [OF sp, of "st\<lparr>shouldPlay := True, isPlaying := True\<rparr>"
          "currentIndex st" cfg] cur by auto
    ultimately show ?thesis using TogglePlay by (auto simp add: step_def togglePlay_def)
  qed
qed

lemma run_ok:
  assumes sp: "\<forall>w \<in> set words. SP \<notin> set w" and ne: "words \<noteq> []"
  shows "player_ok words st \<Longrightarrow> \<forall>ev \<in> set evs. event_ok words ev \<Longrightarrow>
    \<exists>st'. run cfg words evs st = Inr st' \<and> player_ok words st'"
proof (induction evs arbitrary: st)
  case Nil
  then show ?case by simp
next
  case (Cons ev evs)
  from step_ok [OF sp ne Cons.prems(1), of ev cfg] Cons.prems(2) obtain st1 where
    1: "step cfg words ev st = Inr st1" "player_ok words st1" by auto
  from Cons.IH [OF 1(2)] Cons.prems(2) obtain st' where
    "run cfg words evs st1 = Inr st'" "player_ok words st'" by auto
  with 1 show ?case by simp
qed


lemma changePosition_clamps:
  assumes sp: "\<forall>w \<in> set words. SP \<notin> set w" and ne: "words \<noteq> []"
  shows "\<exists>st'. changePosition cfg words delta st = Inr st'
           \<and> currentIndex st' = max 0 (min (int (length words) - 1) (currentIndex st + delta))"
proof -
  let ?n = "max 0 (min (int (length words) - 1) (currentIndex st + delta))"
  from ne have len: "0 \<le> int (length words) - 1" by (cases words) simp_all
  then have n: "0 \<le> ?n" "?n \<le> int (length words) - 1" by simp_all
  from speakText_ok [OF sp, of "st\<lparr>currentIndex := ?n\<rparr>" ?n cfg] n
  obtain st' where "speakText cfg words ?n (st\<lparr>currentIndex := ?n\<rparr>) = Inr st'"
    "currentIndex st' = ?n" by auto
  then show ?thesis by (simp add: changePosition_def Let_def)
qed

lemmas eval_defs = step_def togglePlay_def speakText_def isVoiceEnabled_def activeWpm_def
  enqueueNextChunk.simps next_chunk_def unit_chunk_def unit_scan.simps closes_unit_def
  ends_with_opt_quote_def is_quote_def is_sentence_punct_def is_phrase_punct_def
  getNextLargeChunk_def lookback_scan.simps closes_sentence_def ends_sentence_def
  make_utterance_def strip_trailing_punct_def trim_def is_ws_def js_index_def js_slice_def
  js_pos_def changePosition_def navigateBySentence_step_def navigateBySentence_def
  getSentenceRange_def scan_start.simps scan_end.simps stops_scan_def handleWordClick_def
  timer_tick_def onboundary_def onend_def onerror_def delete_at_def initial_player_def
  js_def NL_def SP_def Let_def

lemmas tokenize_defs = tokenize_def split_nl_def push_seg_def seg_words_def trim_def
  split_sp_def is_ws_def js_def NL_def SP_def

text \<open>
  C2. For a document whose token array is not empty, opened at a position within the
  array, every sequence of events (fixed-delta seek, sentence seek, click on a rendered
  token, timer tick, the speech engine's word-boundary, end and error callbacks, play and
  pause) runs without error and leaves \<open>0 \<le> currentIndex \<le> totalTokens - 1\<close>.  From
  any state, a fixed-delta seek lands inside the array: on the last index when the target
  is at or past it, on index 0 when the target is at or before it.
\<close>

theorem currentIndex_stays_in_bounds:
  assumes "tokenize content \<noteq> []"
    and "0 \<le> lastPosition" and "lastPosition \<le> int (length (tokenize content)) - 1"
    and "\<forall>ev \<in> set evs. event_ok (tokenize content) ev"
  shows "(\<exists>st. run cfg (tokenize content) evs (initial_player lastPosition) = Inr st
            \<and> 0 \<le> currentIndex st
            \<and> currentIndex st \<le> int (length (tokenize content)) - 1)
         \<and> (\<exists>st'. changePosition cfg (tokenize content) delta st0 = Inr st'
              \<and> 0 \<le> currentIndex st'
              \<and> currentIndex st' \<le> int (length (tokenize content)) - 1
              \<and> (int (length (tokenize content)) - 1 \<le> currentIndex st0 + delta
                   \<longrightarrow> currentIndex st' = int (length (tokenize content)) - 1)
              \<and> (currentIndex st0 + delta \<le> 0 \<longrightarrow> currentIndex st' = 0))"
proof -
  let ?ws = "tokenize content"
  have sp: "\<forall>w \<in> set ?ws. SP \<notin> set w" using tokenize_no_space by blast
  have "player_ok ?ws (initial_player lastPosition)"
    using assms(2,3) by (simp add: player_ok_def initial_player_def)
  from run_ok [OF sp assms(1) this assms(4), of cfg]
  have 1: "\<exists>st. run cfg ?ws evs (initial_player lastPosition) = Inr st
            \<and> 0 \<le> currentIndex st \<and> currentIndex st \<le> int (length ?ws) - 1"
    by (auto simp: player_ok_def)
  from assms(1) have len: "0 \<le> int (length ?ws) - 1" by (cases ?ws) simp_all
  from changePosition_clamps [OF sp assms(1), of cfg delta st0] obtain st' where
    c: "changePosition cfg ?ws delta st0 = Inr st'"
       "currentIndex st' = max 0 (min (int (length ?ws) - 1) (currentIndex st0 + delta))"
    by blast
  have "0 \<le> currentIndex st' \<and> currentIndex st' \<le> int (length ?ws) - 1
        \<and> (int (length ?ws) - 1 \<le> currentIndex st0 + delta
              \<longrightarrow> currentIndex st' = int (length ?ws) - 1)
        \<and> (currentIndex st0 + delta \<le> 0 \<longrightarrow> currentIndex st' = 0)"
    unfolding c(2) using len by linarith
  with c(1) 1 show ?thesis by blast
qed

theorem currentIndex_stays_in_bounds_witness:
  "tokenize (js ''One two. Three four five.'') \<noteq> []
   \<and> (0::int) \<le> 0 \<and> 0 \<le> int (length (tokenize (js ''One two. Three four five.''))) - 1
   \<and> event_ok (tokenize (js ''One two. Three four five.'')) TogglePlay
   \<and> event_ok (tokenize (js ''One two. Three four five.'')) (SpeechBoundary 0 4)
   \<and> event_ok (tokenize (js ''One two. Three four five.'')) (ChangePosition 100)
   \<and> run \<lparr> mode = Scroll, spritzEnabled = False, wheelEnabled = False,
           tiktokEnabled = False, normalEnabled = True, wheelContinuousMode = False,
           spritzWpm = 300, normalWpm = 250, rate = 1, repeatMode = Sentence \<rparr>
         (tokenize (js ''One two. Three four five.''))
         [TogglePlay, SpeechBoundary 0 4, ChangePosition 100] (initial_player 0)
       = Inr \<lparr> currentIndex = 4, isPlaying = True, shouldPlay = True, timer = None,
              chunkQueueNextIndex = 5,
              activeUtterances =
                [\<lparr> u_chunk = \<lparr> c_text = js ''five.'', c_start = 4, c_end = 5 \<rparr>,
                   isRepeating = True, firstPart = js ''five'' \<rparr>] \<rparr>
   \<and> int (length (tokenize (js ''One two. Three four five.''))) - 1 = 4"
proof -
  let ?ws = "tokenize (js ''One two. Three four five.'')"
  let ?cfg = "\<lparr> mode = Scroll, spritzEnabled = False, wheelEnabled = False,
           tiktokEnabled = False, normalEnabled = True, wheelContinuousMode = False,
           spritzWpm = 300, normalWpm = 250, rate = 1, repeatMode = Sentence \<rparr>"
  let ?evs = "[TogglePlay, SpeechBoundary 0 4, ChangePosition 100]"
  have tk: "?ws = [js ''One'', js ''two.'', js ''Three'', js ''four'', js ''five.'']"
    by (simp add: tokenize_defs)
  have h1: "?ws \<noteq> []" unfolding tk by simp
  have h2: "(0::int) \<le> 0" by simp
  have h3: "0 \<le> int (length ?ws) - 1" unfolding tk by simp
  have h4: "\<forall>ev \<in> set ?evs. event_ok ?ws ev" by (simp add: event_ok_def)
  have "event_ok ?ws TogglePlay" "event_ok ?ws (SpeechBoundary 0 4)"
    "event_ok ?ws (ChangePosition 100)" by (simp_all add: event_ok_def)
  note ev = this
  have r: "run ?cfg ?ws ?evs (initial_player 0)
       = Inr \<lparr> currentIndex = 4, isPlaying = True, shouldPlay = True, timer = None,
              chunkQueueNextIndex = 5,
              activeUtterances =
                [\<lparr> u_chunk = \<lparr> c_text = js ''five.'', c_start = 4, c_end = 5 \<rparr>,
                   isRepeating = True, firstPart = js ''five'' \<rparr>] \<rparr>"
    unfolding tk by (simp add: eval_defs)
  from currentIndex_stays_in_bounds [OF h1 h2 h3 h4, of ?cfg 100 "initial_player 0"]
  obtain st where a: "run ?cfg ?ws ?evs (initial_player 0) = Inr st"
    and b: "currentIndex st \<le> int (length ?ws) - 1" by blast
  from a have "Inr \<lparr> currentIndex = 4, isPlaying = True, shouldPlay = True, timer = None,
              chunkQueueNextIndex = 5,
              activeUtterances =
                [\<lparr> u_chunk = \<lparr> c_text = js ''five.'', c_start = 4, c_end = 5 \<rparr>,
                   isRepeating = True, firstPart = js ''five'' \<rparr>] \<rparr> = (Inr st :: error + player)"
    unfolding r .
  then have "currentIndex st = 4" by auto
  with b have "4 \<le> int (length ?ws) - 1" by simp
  moreover have "int (length ?ws) - 1 \<le> 4" unfolding tk by simp
  ultimately have "int (length ?ws) - 1 = 4" by simp
  with h1 h2 h3 ev r show ?thesis by blast
qed

section \<open>Folder moves\<close>

text \<open>Moving a folder into itself changes nothing, whatever the database holds.\<close>

lemma moveItems_into_itself:
  "moveItems [] [a] (Some a) d = Inr d"
  by (simp add: moveItems_def Let_def)

text \<open>
  C1. Moving a folder into itself is a no-op, but moving a folder into one of its own
  descendants is not rejected: \<open>moveItems\<close> only compares the folder's id with the target.
  With folder B inside folder A, moving A into B makes B the parent of A, and A becomes
  its own ancestor although the tree was acyclic before.
\<close>

theorem moveItems_into_descendant_makes_cycle:
  "folder_tree_ok
     \<lparr> books = [],
       folders =
         [(JStr (js ''A''), JObj [(js ''id'', JStr (js ''A'')), (js ''name'', JStr (js ''Docs'')),
                                  (js ''parentId'', JNull), (js ''createdAt'', JNum 1)]),
          (JStr (js ''B''), JObj [(js ''id'', JStr (js ''B'')), (js ''name'', JStr (js ''Sub'')),
                                  (js ''parentId'', JStr (js ''A'')), (js ''createdAt'', JNum 2)])],
       settings = [], glossary = [] \<rparr>
   \<and> parent_of
     \<lparr> books = [],
       folders =
         [(JStr (js ''A''), JObj [(js ''id'', JStr (js ''A'')), (js ''name'', JStr (js ''Docs'')),
                                  (js ''parentId'', JNull), (js ''createdAt'', JNum 1)]),
          (JStr (js ''B''), JObj [(js ''id'', JStr (js ''B'')), (js ''name'', JStr (js ''Sub'')),
                                  (js ''parentId'', JStr (js ''A'')), (js ''createdAt'', JNum 2)])],
       settings = [], glossary = [] \<rparr> (JStr (js ''B'')) = Some (JStr (js ''A''))
   \<and> moveItems [] [js ''A''] (Some (js ''B''))
     \<lparr> books = [],
       folders =
         [(JStr (js ''A''), JObj [(js ''id'', JStr (js ''A'')), (js ''name'', JStr (js ''Docs'')),
                                  (js ''parentId'', JNull), (js ''createdAt'', JNum 1)]),
          (JStr (js ''B''), JObj [(js ''id'', JStr (js ''B'')), (js ''name'', JStr (js ''Sub'')),
                                  (js ''parentId'', JStr (js ''A'')), (js ''createdAt'', JNum 2)])],
       settings = [], glossary = [] \<rparr>
     = Inr
     \<lparr> books = [],
       folders =
         [(JStr (js ''A''), JObj [(js ''id'', JStr (js ''A'')), (js ''name'', JStr (js ''Docs'')),
                                  (js ''parentId'', JStr (js ''B'')), (js ''createdAt'', JNum 1)]),
          (JStr (js ''B''), JObj [(js ''id'', JStr (js ''B'')), (js ''name'', JStr (js ''Sub'')),
                                  (js ''parentId'', JStr (js ''A'')), (js ''createdAt'', JNum 2)])],
       settings = [], glossary = [] \<rparr>
   \<and> own_ancestor
     \<lparr> books = [],
       folders =
         [(JStr (js ''A''), JObj [(js ''id'', JStr (js ''A'')), (js ''name'', JStr (js ''Docs'')),
                                  (js ''parentId'', JStr (js ''B'')), (js ''createdAt'', JNum 1)]),
          (JStr (js ''B''), JObj [(js ''id'', JStr (js ''B'')), (js ''name'', JStr (js ''Sub'')),
                                  (js ''parentId'', JStr (js ''A'')), (js ''createdAt'', JNum 2)])],
       settings = [], glossary = [] \<rparr> (JStr (js ''A''))
   \<and> \<not> folder_tree_ok
     \<lparr> books = [],
       folders =
         [(JStr (js ''A''), JObj [(js ''id'', JStr (js ''A'')), (js ''name'', JStr (js ''Docs'')),
                                  (js ''parentId'', JStr (js ''B'')), (js ''createdAt'', JNum 1)]),
          (JStr (js ''B''), JObj [(js ''id'', JStr (js ''B'')), (js ''name'', JStr (js ''Sub'')),
                                  (js ''parentId'', JStr (js ''A'')), (js ''createdAt'', JNum 2)])],
       settings = [], glossary = [] \<rparr>"
proof -
  let ?A = "JObj [(js ''id'', JStr (js ''A'')), (js ''name'', JStr (js ''Docs'')),
                  (js ''parentId'', JNull), (js ''createdAt'', JNum 1)]"
  let ?A' = "JObj [(js ''id'', JStr (js ''A'')), (js ''name'', JStr (js ''Docs'')),
                  (js ''parentId'', JStr (js ''B'')), (js ''createdAt'', JNum 1)]"
  let ?B = "JObj [(js ''id'', JStr (js ''B'')), (js ''name'', JStr (js ''Sub'')),
                  (js ''parentId'', JStr (js ''A'')), (js ''createdAt'', JNum 2)]"
  let ?d0 = "\<lparr> books = [], folders = [(JStr (js ''A''), ?A), (JStr (js ''B''), ?B)],
               settings = [], glossary = [] \<rparr>"
  let ?d1 = "\<lparr> books = [], folders = [(JStr (js ''A''), ?A'), (JStr (js ''B''), ?B)],
               settings = [], glossary = [] \<rparr>"
  have ne: "js ''A'' \<noteq> js ''B''" "js ''id'' \<noteq> js ''parentId''"
    "js ''name'' \<noteq> js ''parentId''"
    "js ''id'' \<noteq> js ''name''" "js ''createdAt'' \<noteq> js ''parentId''"
    by (simp_all add: js_def)
  have pA: "parent_of ?d0 (JStr (js ''A'')) = None"
    and pB: "parent_of ?d0 (JStr (js ''B'')) = Some (JStr (js ''A''))"
    using ne by (simp_all add: parent_of_def get_def get_prop_def)
  have pA': "parent_of ?d1 (JStr (js ''A'')) = Some (JStr (js ''B''))"
    and pB': "parent_of ?d1 (JStr (js ''B'')) = Some (JStr (js ''A''))"
    using ne by (simp_all add: parent_of_def get_def get_prop_def)
  have 1: "folder_tree_ok ?d0"
    using ne pA pB by (simp add: folder_tree_ok_def own_ancestor_def numeral_2_eq_2)
  have 3: "moveItems [] [js ''A''] (Some (js ''B'')) ?d0 = Inr ?d1"
    using ne by (simp add: moveItems_def get_def put_inline_def key_of_def get_prop_def
        set_prop_def truthy_def Let_def)
  have 4: "own_ancestor ?d1 (JStr (js ''A''))"
    using ne pA' pB' by (simp add: own_ancestor_def numeral_2_eq_2)
  then have 5: "\<not> folder_tree_ok ?d1"
    by (simp add: folder_tree_ok_def)
  from 1 pB 3 4 5 show ?thesis by blast
qed

section \<open>Backup and restore\<close>

subsection \<open>Puts\<close>

lemma update_new_key: "k \<notin> fst ` set al \<Longrightarrow> AList.update k v al = al @ [(k, v)]"
  by (induction al) auto

lemma set_update_subset: "set (AList.update k v al) \<subseteq> insert (k, v) (set al)"
  by (induction al) auto

lemma put_each_keyed:
  "all_keyed kp xs \<Longrightarrow>
     put_each kp xs s = (None, fold (\<lambda>v. AList.update (the (key_of kp v)) v) xs s)"
  by (induction xs arbitrary: s) (auto simp: all_keyed_def put_inline_def)

lemma map_of_fold_update:
  "map_of (fold (\<lambda>v. AList.update (the (key_of kp v)) v) xs s)
     = map_of s ++ map_of (rev (keyed kp xs))"
proof (induction xs arbitrary: s)
  case Nil
  then show ?case by (simp add: keyed_def)
next
  case (Cons x xs)
  let ?k = "the (key_of kp x)"
  have "map_of (fold (\<lambda>v. AList.update (the (key_of kp v)) v) (x # xs) s)
      = map_of (AList.update ?k x s) ++ map_of (rev (keyed kp xs))"
    using Cons [of "AList.update ?k x s"] by simp
  also have "\<dots> = (map_of s ++ [?k \<mapsto> x]) ++ map_of (rev (keyed kp xs))"
    by (simp add: update_conv')
  also have "\<dots> = map_of s ++ ([?k \<mapsto> x] ++ map_of (rev (keyed kp xs)))"
    by simp
  also have "[?k \<mapsto> x] ++ map_of (rev (keyed kp xs)) = map_of (rev (keyed kp (x # xs)))"
    by (simp add: keyed_def)
  finally show ?case .
qed

text \<open>A store filled by puts holds each value once, under the value's own key.\<close>

lemma store_ok_Nil: "store_ok kp []"
  by (simp add: store_ok_def)

lemma store_ok_put:
  assumes "store_ok kp s" "put_inline kp v s = Inr s'"
  shows "store_ok kp s'"
proof -
  from assms(2) obtain k where k: "key_of kp v = Some k" "s' = AList.update k v s"
    by (auto simp: put_inline_def split: option.splits)
  have "distinct (map fst s')" using assms(1) k by (simp add: store_ok_def distinct_update)
  moreover have "set s' \<subseteq> insert (k, v) (set s)"
    unfolding k(2) by (rule set_update_subset)
  then have "list_all (\<lambda>(k, v). key_of kp v = Some k) s'"
    using assms(1) k(1) by (auto simp: store_ok_def list_all_iff)
  ultimately show ?thesis by (simp add: store_ok_def)
qed

lemma put_each_store:
  "store_ok kp (s1 @ s2) \<Longrightarrow> put_each kp (map snd s2) s1 = (None, s1 @ s2)"
proof (induction s2 arbitrary: s1)
  case Nil
  then show ?case by simp
next
  case (Cons kv s2)
  obtain k v where kv: "kv = (k, v)" by (cases kv)
  from Cons.prems kv have key: "key_of kp v = Some k" and new: "k \<notin> fst ` set s1"
    by (auto simp: store_ok_def)
  then have "put_inline kp v s1 = Inr (s1 @ [(k, v)])"
    by (simp add: put_inline_def update_new_key)
  moreover have "put_each kp (map snd s2) (s1 @ [(k, v)]) = (None, (s1 @ [(k, v)]) @ s2)"
    using Cons.prems kv by (intro Cons.IH) simp
  ultimately show ?case using kv by simp
qed

lemma key_of_get_prop: "key_of kp v = Some k \<Longrightarrow> get_prop v kp = Some k"
  by (auto simp: key_of_def split: option.splits if_splits)

subsection \<open>Import\<close>

lemma import_collection_items:
  "import_collection name kp data s = put_each kp (snapshot_items data name) s"
  by (simp add: import_collection_def snapshot_items_def split: option.splits json.splits)

lemma truthy_version_imp_truthy:
  "truthy (get_prop data name) \<Longrightarrow> truthy (Some data)"
  by (cases data) (simp_all add: get_prop_def truthy_def)

lemma import_tx_keyed:
  assumes "all_keyed (js ''id'') (snapshot_items data (js ''books''))"
    and "all_keyed (js ''id'') (snapshot_items data (js ''folders''))"
    and "all_keyed (js ''word'') (snapshot_items data (js ''glossary''))"
  shows "import_tx data d =
    (Inr (),
     d\<lparr>books := fold (\<lambda>v. AList.update (the (key_of (js ''id'') v)) v)
                   (snapshot_items data (js ''books'')) (books d),
       folders := fold (\<lambda>v. AList.update (the (key_of (js ''id'') v)) v)
                   (snapshot_items data (js ''folders'')) (folders d),
       glossary := fold (\<lambda>v. AList.update (the (key_of (js ''word'') v)) v)
                   (snapshot_items data (js ''glossary'')) (glossary d),
       settings := import_settings data (settings d)\<rparr>)"
  unfolding import_tx_def import_collection_items
    put_each_keyed [OF assms(1)] put_each_keyed [OF assms(2)] put_each_keyed [OF assms(3)]
  by simp

text \<open>
  A text that is not JSON, or a parsed value without a truthy version tag, is refused
  before the transaction is opened: the database is returned as it was.
\<close>

lemma importBackup_invalid_unchanged:
  "JSON_parse s = None \<Longrightarrow> importBackup JSON_parse s d = (Inl SyntaxError, d)"
  "JSON_parse s = Some data \<Longrightarrow> \<not> truthy (get_prop data (js ''version''))
     \<Longrightarrow> importBackup JSON_parse s d = (Inl InvalidBackupFormat, d)"
  by (simp_all add: importBackup_def)

text \<open>
  What an import writes into the settings store: a slot takes the snapshot's value when
  that value is truthy and keeps its old value otherwise, and no other key changes.
\<close>

lemma import_settings_slots:
  "get (import_settings data s) (JStr (js ''app''))
     = (if truthy (snapshot_slot data (js ''app'')) then snapshot_slot data (js ''app'')
        else get s (JStr (js ''app'')))"
  "get (import_settings data s) (JStr (js ''voice''))
     = (if truthy (snapshot_slot data (js ''voice'')) then snapshot_slot data (js ''voice'')
        else get s (JStr (js ''voice'')))"
  "k \<noteq> JStr (js ''app'') \<Longrightarrow> k \<noteq> JStr (js ''voice'')
     \<Longrightarrow> get (import_settings data s) k = get s k"
proof -
  have ne: "js ''app'' \<noteq> js ''voice''" by (simp add: js_def)
  have nt: "\<And>x name. \<not> truthy (Some x) \<Longrightarrow> get_prop x name = None"
    by (simp add: truthy_def get_prop_def split: json.splits)
  have tr: "\<And>v. truthy v \<Longrightarrow> Some (the v) = v"
    by (simp add: truthy_def split: option.splits)
  show "get (import_settings data s) (JStr (js ''app''))
     = (if truthy (snapshot_slot data (js ''app'')) then snapshot_slot data (js ''app'')
        else get s (JStr (js ''app'')))"
    using ne nt tr
    by (auto simp: import_settings_def snapshot_slot_def get_def put_at_def update_conv'
        Let_def truthy_def [of None] split: option.splits)
  show "get (import_settings data s) (JStr (js ''voice''))
     = (if truthy (snapshot_slot data (js ''voice'')) then snapshot_slot data (js ''voice'')
        else get s (JStr (js ''voice'')))"
    using ne nt tr
    by (auto simp: import_settings_def snapshot_slot_def get_def put_at_def update_conv'
        Let_def truthy_def [of None] split: option.splits)
  show "k \<noteq> JStr (js ''app'') \<Longrightarrow> k \<noteq> JStr (js ''voice'')
     \<Longrightarrow> get (import_settings data s) k = get s k"
    by (auto simp: import_settings_def get_def put_at_def update_conv' Let_def
        split: option.splits)
qed

text \<open>
  A snapshot with a version tag whose records all carry their keys is imported whole:
  every collection becomes the old one overridden by the snapshot's records under their
  identifiers (the last record of an identifier wins), the settings slots are written as
  above, and no key of the old database is lost.
\<close>

lemma importBackup_keyed_upserts:
  assumes "JSON_parse s = Some data"
    and "truthy (get_prop data (js ''version''))"
    and "all_keyed (js ''id'') (snapshot_items data (js ''books''))"
    and "all_keyed (js ''id'') (snapshot_items data (js ''folders''))"
    and "all_keyed (js ''word'') (snapshot_items data (js ''glossary''))"
  shows "\<exists>d'. importBackup JSON_parse s d = (Inr (), d')
      \<and> map_of (books d') = map_of (books d)
            ++ map_of (rev (keyed (js ''id'') (snapshot_items data (js ''books''))))
      \<and> map_of (folders d') = map_of (folders d)
            ++ map_of (rev (keyed (js ''id'') (snapshot_items data (js ''folders''))))
      \<and> map_of (glossary d') = map_of (glossary d)
            ++ map_of (rev (keyed (js ''word'') (snapshot_items data (js ''glossary''))))
      \<and> get (settings d') (JStr (js ''app''))
          = (if truthy (snapshot_slot data (js ''app'')) then snapshot_slot data (js ''app'')
             else get (settings d) (JStr (js ''app'')))
      \<and> get (settings d') (JStr (js ''voice''))
          = (if truthy (snapshot_slot data (js ''voice'')) then snapshot_slot data (js ''voice'')
             else get (settings d) (JStr (js ''voice'')))
      \<and> (\<forall>k. k \<noteq> JStr (js ''app'') \<and> k \<noteq> JStr (js ''voice'')
             \<longrightarrow> get (settings d') k = get (settings d) k)"
proof -
  have t: "truthy (Some data)" using assms(2) by (rule truthy_version_imp_truthy)
  let ?d' = "d\<lparr>books := fold (\<lambda>v. AList.update (the (key_of (js ''id'') v)) v)
                   (snapshot_items data (js ''books'')) (books d),
       folders := fold (\<lambda>v. AList.update (the (key_of (js ''id'') v)) v)
                   (snapshot_items data (js ''folders'')) (folders d),
       glossary := fold (\<lambda>v. AList.update (the (key_of (js ''word'') v)) v)
                   (snapshot_items data (js ''glossary'')) (glossary d),
       settings := import_settings data (settings d)\<rparr>"
  have "importBackup JSON_parse s d = (Inr (), ?d')"
    using assms(1,2) t import_tx_keyed [OF assms(3,4,5), of d] by (simp add: importBackup_def)
  moreover have "map_of (books ?d') = map_of (books d)
                    ++ map_of (rev (keyed (js ''id'') (snapshot_items data (js ''books''))))"
    and "map_of (folders ?d') = map_of (folders d)
                    ++ map_of (rev (keyed (js ''id'') (snapshot_items data (js ''folders''))))"
    and "map_of (glossary ?d') = map_of (glossary d)
                    ++ map_of (rev (keyed (js ''word'') (snapshot_items data (js ''glossary''))))"
    by (simp_all add: map_of_fold_update)
  moreover have "get (settings ?d') (JStr (js ''app''))
          = (if truthy (snapshot_slot data (js ''app'')) then snapshot_slot data (js ''app'')
             else get (settings d) (JStr (js ''app'')))"
    and "get (settings ?d') (JStr (js ''voice''))
          = (if truthy (snapshot_slot data (js ''voice'')) then snapshot_slot data (js ''voice'')
             else get (settings d) (JStr (js ''voice'')))"
    and "\<forall>k. k \<noteq> JStr (js ''app'') \<and> k \<noteq> JStr (js ''voice'')
             \<longrightarrow> get (settings ?d') k = get (settings d) k"
    by (simp_all add: import_settings_slots)
  ultimately show ?thesis by blast
qed

text \<open>
  A record without a key stops the import where it stands: the records before it are
  written, the caller is given \<open>DataError\<close>, and neither the records after it nor the
  other collections are written.
\<close>

lemma put_each_keyless:
  "all_keyed kp xs \<Longrightarrow> key_of kp y = None \<Longrightarrow>
     put_each kp (xs @ y # zs) s
       = (Some DataError, fold (\<lambda>v. AList.update (the (key_of kp v)) v) xs s)"
  by (induction xs arbitrary: s) (auto simp: all_keyed_def put_inline_def)

lemma importBackup_keyless_record:
  assumes "JSON_parse s = Some data"
    and "truthy (get_prop data (js ''version''))"
    and "get_prop data (js ''books'') = Some (JArr (xs @ y # zs))"
    and "all_keyed (js ''id'') xs"
    and "key_of (js ''id'') y = None"
  shows "importBackup JSON_parse s d
           = (Inl DataError,
              d\<lparr>books := fold (\<lambda>v. AList.update (the (key_of (js ''id'') v)) v) xs (books d)\<rparr>)"
proof -
  have t: "truthy (Some data)" using assms(2) by (rule truthy_version_imp_truthy)
  have "import_collection (js ''books'') (js ''id'') data (books d)
      = (Some DataError, fold (\<lambda>v. AList.update (the (key_of (js ''id'') v)) v) xs (books d))"
    using assms(3) put_each_keyless [OF assms(4,5)] by (simp add: import_collection_def)
  then show ?thesis
    using assms(1,2) t by (simp add: importBackup_def import_tx_def)
qed

text \<open>
  C8. The refusal of a text that is not JSON or has no version tag leaves the database
  untouched, and a snapshot whose records all carry their keys is upserted whole.  But a
  snapshot that passes the version check is not imported all-or-nothing.  The database
  holds the books b1 ("Old") and b2 ("Kept"); the snapshot has version 1, the books b1
  ("New"), a record without an id, and b3, one glossary entry and the app settings.  The
  import is rejected with \<open>DataError\<close>, yet b1 has been overwritten; b3, the glossary entry
  and the settings have not been written.
\<close>

theorem importBackup_partial_commit:
  "truthy (get_prop
     (JObj [(js ''version'', JNum 1),
            (js ''books'',
               JArr [JObj [(js ''id'', JStr (js ''b1'')), (js ''title'', JStr (js ''New''))],
                     JObj [(js ''title'', JStr (js ''No id''))],
                     JObj [(js ''id'', JStr (js ''b3'')), (js ''title'', JStr (js ''Third''))]]),
            (js ''folders'', JArr []),
            (js ''glossary'',
               JArr [JObj [(js ''word'', JStr (js ''zen'')), (js ''definition'', JStr (js ''calm''))]]),
            (js ''settings'', JObj [(js ''app'', JObj [(js ''theme'', JStr (js ''dark''))])])])
     (js ''version''))
   \<and> importBackup
     (\<lambda>t. Some
       (JObj [(js ''version'', JNum 1),
            (js ''books'',
               JArr [JObj [(js ''id'', JStr (js ''b1'')), (js ''title'', JStr (js ''New''))],
                     JObj [(js ''title'', JStr (js ''No id''))],
                     JObj [(js ''id'', JStr (js ''b3'')), (js ''title'', JStr (js ''Third''))]]),
            (js ''folders'', JArr []),
            (js ''glossary'',
               JArr [JObj [(js ''word'', JStr (js ''zen'')), (js ''definition'', JStr (js ''calm''))]]),
            (js ''settings'', JObj [(js ''app'', JObj [(js ''theme'', JStr (js ''dark''))])])]))
     (js ''backup.json'')
     \<lparr> books = [(JStr (js ''b1''), JObj [(js ''id'', JStr (js ''b1'')), (js ''title'', JStr (js ''Old''))]),
                 (JStr (js ''b2''), JObj [(js ''id'', JStr (js ''b2'')), (js ''title'', JStr (js ''Kept''))])],
       folders = [], settings = [], glossary = [] \<rparr>
   = (Inl DataError,
     \<lparr> books = [(JStr (js ''b1''), JObj [(js ''id'', JStr (js ''b1'')), (js ''title'', JStr (js ''New''))]),
                 (JStr (js ''b2''), JObj [(js ''id'', JStr (js ''b2'')), (js ''title'', JStr (js ''Kept''))])],
       folders = [], settings = [], glossary = [] \<rparr>)"
proof -
  let ?old = "JObj [(js ''id'', JStr (js ''b1'')), (js ''title'', JStr (js ''Old''))]"
  let ?new = "JObj [(js ''id'', JStr (js ''b1'')), (js ''title'', JStr (js ''New''))]"
  let ?kept = "JObj [(js ''id'', JStr (js ''b2'')), (js ''title'', JStr (js ''Kept''))]"
  let ?bad = "JObj [(js ''title'', JStr (js ''No id''))]"
  let ?third = "JObj [(js ''id'', JStr (js ''b3'')), (js ''title'', JStr (js ''Third''))]"
  let ?data = "JObj [(js ''version'', JNum 1),
            (js ''books'', JArr [?new, ?bad, ?third]),
            (js ''folders'', JArr []),
            (js ''glossary'',
               JArr [JObj [(js ''word'', JStr (js ''zen'')), (js ''definition'', JStr (js ''calm''))]]),
            (js ''settings'', JObj [(js ''app'', JObj [(js ''theme'', JStr (js ''dark''))])])]"
  let ?d0 = "\<lparr> books = [(JStr (js ''b1''), ?old), (JStr (js ''b2''), ?kept)],
               folders = [], settings = [], glossary = [] \<rparr>"
  let ?d1 = "\<lparr> books = [(JStr (js ''b1''), ?new), (JStr (js ''b2''), ?kept)],
               folders = [], settings = [], glossary = [] \<rparr>"
  have ne: "js ''version'' \<noteq> js ''books''" "js ''id'' \<noteq> js ''title''" "js ''b1'' \<noteq> js ''b2''"
    by (simp_all add: js_def)
  have v: "get_prop ?data (js ''version'') = Some (JNum 1)"
    by (simp add: get_prop_def)
  have b: "get_prop ?data (js ''books'') = Some (JArr [?new, ?bad, ?third])"
    using ne by (simp add: get_prop_def)
  have k1: "put_inline (js ''id'') ?new (books ?d0)
              = Inr [(JStr (js ''b1''), ?new), (JStr (js ''b2''), ?kept)]"
    by (simp add: put_inline_def key_of_def get_prop_def)
  have k2: "put_inline (js ''id'') ?bad [(JStr (js ''b1''), ?new), (JStr (js ''b2''), ?kept)]
              = Inl DataError"
    using ne by (simp add: put_inline_def key_of_def get_prop_def)
  have c: "import_collection (js ''books'') (js ''id'') ?data (books ?d0)
             = (Some DataError, [(JStr (js ''b1''), ?new), (JStr (js ''b2''), ?kept)])"
    unfolding import_collection_def b using k1 k2 by simp
  have t: "truthy (get_prop ?data (js ''version''))" unfolding v by (simp add: truthy_def)
  then have t': "truthy (Some ?data)" by (rule truthy_version_imp_truthy)
  have "import_tx ?data ?d0 = (Inl DataError, ?d1)"
    unfolding import_tx_def c by simp
  then have "importBackup (\<lambda>t. Some ?data) (js ''backup.json'') ?d0 = (Inl DataError, ?d1)"
    using t t' by (simp add: importBackup_def)
  with t show ?thesis by blast
qed

theorem importBackup_partial_commit_witness:
  "fst (importBackup
     (\<lambda>t. Some
       (JObj [(js ''version'', JNum 1),
            (js ''books'',
               JArr [JObj [(js ''id'', JStr (js ''b1'')), (js ''title'', JStr (js ''New''))],
                     JObj [(js ''title'', JStr (js ''No id''))],
                     JObj [(js ''id'', JStr (js ''b3'')), (js ''title'', JStr (js ''Third''))]]),
            (js ''folders'', JArr []),
            (js ''glossary'',
               JArr [JObj [(js ''word'', JStr (js ''zen'')), (js ''definition'', JStr (js ''calm''))]]),
            (js ''settings'', JObj [(js ''app'', JObj [(js ''theme'', JStr (js ''dark''))])])]))
     (js ''backup.json'')
     \<lparr> books = [(JStr (js ''b1''), JObj [(js ''id'', JStr (js ''b1'')), (js ''title'', JStr (js ''Old''))]),
                 (JStr (js ''b2''), JObj [(js ''id'', JStr (js ''b2'')), (js ''title'', JStr (js ''Kept''))])],
       folders = [], settings = [], glossary = [] \<rparr>) = Inl DataError
   \<and> get (books (snd (importBackup
     (\<lambda>t. Some
       (JObj [(js ''version'', JNum 1),
            (js ''books'',
               JArr [JObj [(js ''id'', JStr (js ''b1'')), (js ''title'', JStr (js ''New''))],
                     JObj [(js ''title'', JStr (js ''No id''))],
                     JObj [(js ''id'', JStr (js ''b3'')), (js ''title'', JStr (js ''Third''))]]),
            (js ''folders'', JArr []),
            (js ''glossary'',
               JArr [JObj [(js ''word'', JStr (js ''zen'')), (js ''definition'', JStr (js ''calm''))]]),
            (js ''settings'', JObj [(js ''app'', JObj [(js ''theme'', JStr (js ''dark''))])])]))
     (js ''backup.json'')
     \<lparr> books = [(JStr (js ''b1''), JObj [(js ''id'', JStr (js ''b1'')), (js ''title'', JStr (js ''Old''))]),
                 (JStr (js ''b2''), JObj [(js ''id'', JStr (js ''b2'')), (js ''title'', JStr (js ''Kept''))])],
       folders = [], settings = [], glossary = [] \<rparr>))) (JStr (js ''b1''))
     = Some (JObj [(js ''id'', JStr (js ''b1'')), (js ''title'', JStr (js ''New''))])
   \<and> get (books (snd (importBackup
     (\<lambda>t. Some
       (JObj [(js ''version'', JNum 1),
            (js ''books'',
               JArr [JObj [(js ''id'', JStr (js ''b1'')), (js ''title'', JStr (js ''New''))],
                     JObj [(js ''title'', JStr (js ''No id''))],
                     JObj [(js ''id'', JStr (js ''b3'')), (js ''title'', JStr (js ''Third''))]]),
            (js ''folders'', JArr []),
            (js ''glossary'',
               JArr [JObj [(js ''word'', JStr (js ''zen'')), (js ''definition'', JStr (js ''calm''))]]),
            (js ''settings'', JObj [(js ''app'', JObj [(js ''theme'', JStr (js ''dark''))])])]))
     (js ''backup.json'')
     \<lparr> books = [(JStr (js ''b1''), JObj [(js ''id'', JStr (js ''b1'')), (js ''title'', JStr (js ''Old''))]),
                 (JStr (js ''b2''), JObj [(js ''id'', JStr (js ''b2'')), (js ''title'', JStr (js ''Kept''))])],
       folders = [], settings = [], glossary = [] \<rparr>))) (JStr (js ''b3'')) = None"
proof -
  have ne: "js ''b1'' \<noteq> js ''b3''" "js ''b2'' \<noteq> js ''b3''" by (simp_all add: js_def)
  show ?thesis
    using ne by (simp add: importBackup_partial_commit get_def)
qed

subsection \<open>Export, then import\<close>

lemma backup_value_props:
  "get_prop (backup_value N now d) (js ''version'') = Some (JNum 1)"
  "get_prop (backup_value N now d) (js ''books'') = Some (JArr (getAll (books d)))"
  "get_prop (backup_value N now d) (js ''folders'') = Some (JArr (getAll (folders d)))"
  "get_prop (backup_value N now d) (js ''glossary'')
     = Some (JArr (Object_values (getGlossary N (glossary d))))"
  by (simp_all add: backup_value_def get_prop_def js_def)

text \<open>
  When every word of the glossary is a string other than \<open>__proto__\<close>, the plain object
  built by \<open>getGlossary\<close> has one own property per entry and \<open>Object.values\<close> lists the
  entries of the store.
\<close>

lemma fold_glossary_map:
  assumes "distinct (map fst (s1 @ s2))"
    and "plain_words (s1 @ s2)"
    and "list_all (\<lambda>(k, v). get_prop v name = Some k) s2"
  shows "fold (\<lambda>item m. obj_assign m (ToPropertyKey N (get_prop item name)) item) (map snd s2)
           \<lparr> own_props = map (\<lambda>(k, v). (ToString N k, v)) s1, proto = None \<rparr>
         = \<lparr> own_props = map (\<lambda>(k, v). (ToString N k, v)) (s1 @ s2), proto = None \<rparr>"
  using assms
proof (induction s2 arbitrary: s1)
  case Nil
  then show ?case by simp
next
  case (Cons kv s2)
  obtain k v where kv: "kv = (k, v)" by (cases kv)
  from Cons.prems kv have key: "get_prop v name = Some k" and new: "k \<notin> fst ` set s1"
    by auto
  from Cons.prems(2) kv obtain w where w: "k = JStr w" "w \<noteq> js ''__proto__''"
    by (auto simp: plain_words_def split: json.splits)
  have "w \<notin> fst ` set (map (\<lambda>(k, v). (ToString N k, v)) s1)"
  proof
    assume "w \<in> fst ` set (map (\<lambda>(k, v). (ToString N k, v)) s1)"
    then obtain k' v' where k': "(k', v') \<in> set s1" "w = ToString N k'" by auto
    from Cons.prems(2) k'(1) have "case k' of JStr w \<Rightarrow> w \<noteq> js ''__proto__'' | _ \<Rightarrow> False"
      by (auto simp: plain_words_def list_all_iff)
    then obtain w' where "k' = JStr w'" by (cases k') auto
    with k' w new show False by force
  qed
  then have "AList.update w v (map (\<lambda>(k, v). (ToString N k, v)) s1)
      = map (\<lambda>(k, v). (ToString N k, v)) (s1 @ [(k, v)])"
    using w by (simp add: update_new_key)
  then have step: "obj_assign \<lparr> own_props = map (\<lambda>(k, v). (ToString N k, v)) s1, proto = None \<rparr>
       (ToPropertyKey N (get_prop v name)) v
     = \<lparr> own_props = map (\<lambda>(k, v). (ToString N k, v)) (s1 @ [(k, v)]), proto = None \<rparr>"
    using w key by (simp add: obj_assign_def ToPropertyKey_def)
  have "fold (\<lambda>item m. obj_assign m (ToPropertyKey N (get_prop item name)) item) (map snd s2)
           \<lparr> own_props = map (\<lambda>(k, v). (ToString N k, v)) (s1 @ [(k, v)]), proto = None \<rparr>
         = \<lparr> own_props = map (\<lambda>(k, v). (ToString N k, v)) ((s1 @ [(k, v)]) @ s2), proto = None \<rparr>"
    using Cons.prems kv by (intro Cons.IH) simp_all
  with step show ?case using kv by simp
qed

lemma getGlossary_values:
  assumes "store_ok (js ''word'') s" and "plain_words s"
  shows "Object_values (getGlossary N s) = getAll s"
proof -
  have "list_all (\<lambda>(k, v). get_prop v (js ''word'') = Some k) s"
    using assms(1) by (auto simp: store_ok_def list_all_iff dest: key_of_get_prop)
  with assms fold_glossary_map [of "[]" s "js ''word''" N]
  have "getGlossary N s = \<lparr> own_props = map (\<lambda>(k, v). (ToString N k, v)) s, proto = None \<rparr>"
    by (simp add: getGlossary_def getAll_def store_ok_def empty_object_def)
  then show ?thesis by (simp add: Object_values_def getAll_def comp_def case_prod_beta)
qed

text \<open>
  For such a glossary, and with \<open>JSON.parse\<close> reading back what \<open>JSON.stringify\<close> wrote,
  exporting a database and importing the export into the empty database gives back the
  three stores.
\<close>

lemma backup_roundtrip_plain_words:
  assumes "store_ok (js ''id'') (books d)"
    and "store_ok (js ''id'') (folders d)"
    and "store_ok (js ''word'') (glossary d)"
    and "plain_words (glossary d)"
    and "JSON_parse (JSON_stringify (backup_value N now d)) = Some (backup_value N now d)"
  shows "\<exists>d'. importBackup JSON_parse (exportBackup N JSON_stringify now d) empty_db = (Inr (), d')
           \<and> books d' = books d \<and> folders d' = folders d \<and> glossary d' = glossary d"
proof -
  let ?bv = "backup_value N now d"
  have v: "truthy (get_prop ?bv (js ''version''))"
    by (simp add: backup_value_props truthy_def)
  then have t: "truthy (Some ?bv)" by (rule truthy_version_imp_truthy)
  have b: "import_collection (js ''books'') (js ''id'') ?bv [] = (None, books d)"
    using put_each_store [of "js ''id''" "[]" "books d"] assms(1)
    by (simp add: import_collection_def backup_value_props getAll_def)
  have f: "import_collection (js ''folders'') (js ''id'') ?bv [] = (None, folders d)"
    using put_each_store [of "js ''id''" "[]" "folders d"] assms(2)
    by (simp add: import_collection_def backup_value_props getAll_def)
  have g: "import_collection (js ''glossary'') (js ''word'') ?bv [] = (None, glossary d)"
    using put_each_store [of "js ''word''" "[]" "glossary d"] assms(3)
      getGlossary_values [OF assms(3,4), of N]
    by (simp add: import_collection_def backup_value_props getAll_def)
  have "import_tx ?bv empty_db
      = (Inr (), empty_db\<lparr>books := books d, folders := folders d, glossary := glossary d,
                           settings := import_settings ?bv (settings empty_db)\<rparr>)"
    by (simp add: import_tx_def empty_db_def b f g)
  then show ?thesis
    using assms(5) v t by (simp add: importBackup_def exportBackup_def)
qed

text \<open>
  C7. The round trip loses a glossary entry whose word is \<open>__proto__\<close>.  The database
  holds one book, one folder and the glossary entries "__proto__" and "zen", each stored
  under its own key.  \<open>getGlossary\<close> assigns the first entry to \<open>glossaryMap['__proto__']\<close>,
  which sets the prototype of the plain object instead of creating a property, so
  \<open>Object.values\<close> and with it the exported snapshot hold the entry "zen" only.  Importing
  the export into the empty database, with \<open>JSON.parse\<close> reading the exported text back as
  the exported value, succeeds and gives back the book and the folder but a glossary without
  the entry "__proto__".
\<close>

theorem backup_roundtrip_loses_proto_entry:
  "store_ok (js ''word'')
     [(JStr (js ''__proto__''),
         JObj [(js ''word'', JStr (js ''__proto__'')), (js ''definition'', JStr (js ''link'')),
               (js ''createdAt'', JNum 1)]),
      (JStr (js ''zen''),
         JObj [(js ''word'', JStr (js ''zen'')), (js ''definition'', JStr (js ''calm'')),
               (js ''createdAt'', JNum 2)])]
   \<and> Object_values (getGlossary Number_toString
     [(JStr (js ''__proto__''),
         JObj [(js ''word'', JStr (js ''__proto__'')), (js ''definition'', JStr (js ''link'')),
               (js ''createdAt'', JNum 1)]),
      (JStr (js ''zen''),
         JObj [(js ''word'', JStr (js ''zen'')), (js ''definition'', JStr (js ''calm'')),
               (js ''createdAt'', JNum 2)])])
     = [JObj [(js ''word'', JStr (js ''zen'')), (js ''definition'', JStr (js ''calm'')),
              (js ''createdAt'', JNum 2)]]
   \<and> importBackup
       (\<lambda>t. if t = JSON_stringify (backup_value Number_toString 7
          \<lparr> books = [(JStr (js ''b1''),
                       JObj [(js ''id'', JStr (js ''b1'')), (js ''title'', JStr (js ''Emma''))])],
            folders = [(JStr (js ''f1''),
                       JObj [(js ''id'', JStr (js ''f1'')), (js ''parentId'', JNull)])],
            settings = [],
            glossary =
              [(JStr (js ''__proto__''),
                 JObj [(js ''word'', JStr (js ''__proto__'')), (js ''definition'', JStr (js ''link'')),
                       (js ''createdAt'', JNum 1)]),
               (JStr (js ''zen''),
                 JObj [(js ''word'', JStr (js ''zen'')), (js ''definition'', JStr (js ''calm'')),
                       (js ''createdAt'', JNum 2)])] \<rparr>)
            then Some (backup_value Number_toString 7
          \<lparr> books = [(JStr (js ''b1''),
                       JObj [(js ''id'', JStr (js ''b1'')), (js ''title'', JStr (js ''Emma''))])],
            folders = [(JStr (js ''f1''),
                       JObj [(js ''id'', JStr (js ''f1'')), (js ''parentId'', JNull)])],
            settings = [],
            glossary =
              [(JStr (js ''__proto__''),
                 JObj [(js ''word'', JStr (js ''__proto__'')), (js ''definition'', JStr (js ''link'')),
                       (js ''createdAt'', JNum 1)]),
               (JStr (js ''zen''),
                 JObj [(js ''word'', JStr (js ''zen'')), (js ''definition'', JStr (js ''calm'')),
                       (js ''createdAt'', JNum 2)])] \<rparr>)
            else None)
       (exportBackup Number_toString JSON_stringify 7
          \<lparr> books = [(JStr (js ''b1''),
                       JObj [(js ''id'', JStr (js ''b1'')), (js ''title'', JStr (js ''Emma''))])],
            folders = [(JStr (js ''f1''),
                       JObj [(js ''id'', JStr (js ''f1'')), (js ''parentId'', JNull)])],
            settings = [],
            glossary =
              [(JStr (js ''__proto__''),
                 JObj [(js ''word'', JStr (js ''__proto__'')), (js ''definition'', JStr (js ''link'')),
                       (js ''createdAt'', JNum 1)]),
               (JStr (js ''zen''),
                 JObj [(js ''word'', JStr (js ''zen'')), (js ''definition'', JStr (js ''calm'')),
                       (js ''createdAt'', JNum 2)])] \<rparr>)
       empty_db
     = (Inr (),
          \<lparr> books = [(JStr (js ''b1''),
                       JObj [(js ''id'', JStr (js ''b1'')), (js ''title'', JStr (js ''Emma''))])],
            folders = [(JStr (js ''f1''),
                       JObj [(js ''id'', JStr (js ''f1'')), (js ''parentId'', JNull)])],
            settings = [],
            glossary =
              [(JStr (js ''zen''),
                 JObj [(js ''word'', JStr (js ''zen'')), (js ''definition'', JStr (js ''calm'')),
                       (js ''createdAt'', JNum 2)])] \<rparr>)"
proof -
  let ?P = "JObj [(js ''word'', JStr (js ''__proto__'')), (js ''definition'', JStr (js ''link'')),
                  (js ''createdAt'', JNum 1)]"
  let ?Z = "JObj [(js ''word'', JStr (js ''zen'')), (js ''definition'', JStr (js ''calm'')),
                  (js ''createdAt'', JNum 2)]"
  let ?B = "JObj [(js ''id'', JStr (js ''b1'')), (js ''title'', JStr (js ''Emma''))]"
  let ?F = "JObj [(js ''id'', JStr (js ''f1'')), (js ''parentId'', JNull)]"
  let ?G = "[(JStr (js ''__proto__''), ?P), (JStr (js ''zen''), ?Z)]"
  let ?d = "\<lparr> books = [(JStr (js ''b1''), ?B)], folders = [(JStr (js ''f1''), ?F)],
              settings = [], glossary = ?G \<rparr>"
  let ?d' = "\<lparr> books = [(JStr (js ''b1''), ?B)], folders = [(JStr (js ''f1''), ?F)],
              settings = [], glossary = [(JStr (js ''zen''), ?Z)] \<rparr>"
  let ?bv = "backup_value Number_toString 7 ?d"
  let ?parse = "\<lambda>t. if t = JSON_stringify ?bv then Some ?bv else None"
  have ne: "js ''zen'' \<noteq> js ''__proto__''" "js ''word'' \<noteq> js ''definition''"
    "js ''word'' \<noteq> js ''createdAt''"
    by (simp_all add: js_def)
  have 1: "store_ok (js ''word'') ?G"
    using ne by (simp add: store_ok_def key_of_def get_prop_def)
  have a1: "obj_assign empty_object (ToPropertyKey Number_toString (get_prop ?P (js ''word''))) ?P
              = \<lparr> own_props = [], proto = Some ?P \<rparr>"
    by (simp add: obj_assign_def ToPropertyKey_def get_prop_def empty_object_def
        reaches_proto_setter_def)
  have a2: "obj_assign \<lparr> own_props = [], proto = Some ?P \<rparr>
              (ToPropertyKey Number_toString (get_prop ?Z (js ''word''))) ?Z
              = \<lparr> own_props = [(js ''zen'', ?Z)], proto = Some ?P \<rparr>"
    using ne by (simp add: obj_assign_def ToPropertyKey_def get_prop_def)
  have g: "getGlossary Number_toString ?G = \<lparr> own_props = [(js ''zen'', ?Z)], proto = Some ?P \<rparr>"
    unfolding getGlossary_def getAll_def using a1 a2 by simp
  then have 2: "Object_values (getGlossary Number_toString ?G) = [?Z]"
    by (simp add: Object_values_def)
  have v: "truthy (get_prop ?bv (js ''version''))"
    by (simp add: backup_value_props truthy_def)
  then have t: "truthy (Some ?bv)" by (rule truthy_version_imp_truthy)
  have pb: "get_prop ?bv (js ''books'') = Some (JArr [?B])"
    and pf: "get_prop ?bv (js ''folders'') = Some (JArr [?F])"
    and pg: "get_prop ?bv (js ''glossary'') = Some (JArr [?Z])"
    using 2 by (simp_all add: backup_value_props getAll_def)
  have b: "import_collection (js ''books'') (js ''id'') ?bv [] = (None, [(JStr (js ''b1''), ?B)])"
    unfolding import_collection_def pb by (simp add: put_inline_def key_of_def get_prop_def)
  have f: "import_collection (js ''folders'') (js ''id'') ?bv [] = (None, [(JStr (js ''f1''), ?F)])"
    unfolding import_collection_def pf by (simp add: put_inline_def key_of_def get_prop_def)
  have gl: "import_collection (js ''glossary'') (js ''word'') ?bv [] = (None, [(JStr (js ''zen''), ?Z)])"
    unfolding import_collection_def pg by (simp add: put_inline_def key_of_def get_prop_def)
  have s: "import_settings ?bv [] = []"
    by (simp add: import_settings_def backup_value_def backup_settings_def get_prop_def get_def
        truthy_def js_def)
  have "import_tx ?bv empty_db = (Inr (), ?d')"
    by (simp add: import_tx_def empty_db_def b f gl s)
  then have 3: "importBackup ?parse (exportBackup Number_toString JSON_stringify 7 ?d) empty_db
      = (Inr (), ?d')"
    using v t by (simp add: importBackup_def exportBackup_def)
  from 1 2 3 show ?thesis by blast
qed

theorem backup_roundtrip_loses_proto_entry_witness:
  "get
     (glossary (snd (importBackup
       (\<lambda>t. if t = js ''backup file'' then Some (backup_value (\<lambda>n. js ''1'') 7
          \<lparr> books = [(JStr (js ''b1''),
                       JObj [(js ''id'', JStr (js ''b1'')), (js ''title'', JStr (js ''Emma''))])],
            folders = [(JStr (js ''f1''),
                       JObj [(js ''id'', JStr (js ''f1'')), (js ''parentId'', JNull)])],
            settings = [],
            glossary =
              [(JStr (js ''__proto__''),
                 JObj [(js ''word'', JStr (js ''__proto__'')), (js ''definition'', JStr (js ''link'')),
                       (js ''createdAt'', JNum 1)]),
               (JStr (js ''zen''),
                 JObj [(js ''word'', JStr (js ''zen'')), (js ''definition'', JStr (js ''calm'')),
                       (js ''createdAt'', JNum 2)])] \<rparr>)
            else None)
       (exportBackup (\<lambda>n. js ''1'') (\<lambda>v. js ''backup file'') 7
          \<lparr> books = [(JStr (js ''b1''),
                       JObj [(js ''id'', JStr (js ''b1'')), (js ''title'', JStr (js ''Emma''))])],
            folders = [(JStr (js ''f1''),
                       JObj [(js ''id'', JStr (js ''f1'')), (js ''parentId'', JNull)])],
            settings = [],
            glossary =
              [(JStr (js ''__proto__''),
                 JObj [(js ''word'', JStr (js ''__proto__'')), (js ''definition'', JStr (js ''link'')),
                       (js ''createdAt'', JNum 1)]),
               (JStr (js ''zen''),
                 JObj [(js ''word'', JStr (js ''zen'')), (js ''definition'', JStr (js ''calm'')),
                       (js ''createdAt'', JNum 2)])] \<rparr>)
       empty_db)))
     (JStr (js ''__proto__'')) = None
   \<and> get
     [(JStr (js ''__proto__''),
         JObj [(js ''word'', JStr (js ''__proto__'')), (js ''definition'', JStr (js ''link'')),
               (js ''createdAt'', JNum 1)]),
      (JStr (js ''zen''),
         JObj [(js ''word'', JStr (js ''zen'')), (js ''definition'', JStr (js ''calm'')),
               (js ''createdAt'', JNum 2)])]
     (JStr (js ''__proto__''))
     = Some (JObj [(js ''word'', JStr (js ''__proto__'')), (js ''definition'', JStr (js ''link'')),
               (js ''createdAt'', JNum 1)])"
proof -
  have ne: "js ''zen'' \<noteq> js ''__proto__''" by (simp add: js_def)
  have "importBackup
       (\<lambda>t. if t = js ''backup file'' then Some (backup_value (\<lambda>n. js ''1'') 7
          \<lparr> books = [(JStr (js ''b1''),
                       JObj [(js ''id'', JStr (js ''b1'')), (js ''title'', JStr (js ''Emma''))])],
            folders = [(JStr (js ''f1''),
                       JObj [(js ''id'', JStr (js ''f1'')), (js ''parentId'', JNull)])],
            settings = [],
            glossary =
              [(JStr (js ''__proto__''),
                 JObj [(js ''word'', JStr (js ''__proto__'')), (js ''definition'', JStr (js ''link'')),
                       (js ''createdAt'', JNum 1)]),
               (JStr (js ''zen''),
                 JObj [(js ''word'', JStr (js ''zen'')), (js ''definition'', JStr (js ''calm'')),
                       (js ''createdAt'', JNum 2)])] \<rparr>)
            else None)
       (exportBackup (\<lambda>n. js ''1'') (\<lambda>v. js ''backup file'') 7
          \<lparr> books = [(JStr (js ''b1''),
                       JObj [(js ''id'', JStr (js ''b1'')), (js ''title'', JStr (js ''Emma''))])],
            folders = [(JStr (js ''f1''),
                       JObj [(js ''id'', JStr (js ''f1'')), (js ''parentId'', JNull)])],
            settings = [],
            glossary =
              [(JStr (js ''__proto__''),
                 JObj [(js ''word'', JStr (js ''__proto__'')), (js ''definition'', JStr (js ''link'')),
                       (js ''createdAt'', JNum 1)]),
               (JStr (js ''zen''),
                 JObj [(js ''word'', JStr (js ''zen'')), (js ''definition'', JStr (js ''calm'')),
                       (js ''createdAt'', JNum 2)])] \<rparr>)
       empty_db
     = (Inr (),
          \<lparr> books = [(JStr (js ''b1''),
                       JObj [(js ''id'', JStr (js ''b1'')), (js ''title'', JStr (js ''Emma''))])],
            folders = [(JStr (js ''f1''),
                       JObj [(js ''id'', JStr (js ''f1'')), (js ''parentId'', JNull)])],
            settings = [],
            glossary =
              [(JStr (js ''zen''),
                 JObj [(js ''word'', JStr (js ''zen'')), (js ''definition'', JStr (js ''calm'')),
                       (js ''createdAt'', JNum 2)])] \<rparr>)"
    using backup_roundtrip_loses_proto_entry [of "\<lambda>n. js ''1''" "\<lambda>v. js ''backup file''"]
    by simp
  then show ?thesis using ne by (simp add: get_def)
qed

end
